theory Spec2Isabelle
  imports Main "HOL-Library.Word"
begin

unbundle bit_operations_syntax

section \<open>Go values: bytes, slices, panics\<close>

text \<open>
  The decoder of \<^verbatim>\<open>dns-resolver\<close> exists in two versions in the repository:
  \<^verbatim>\<open>internal/parser/parser.go\<close> (plain labels only) and a second file of the same
  package (labels, the pointer octet 192 and the NS special case). Both are embedded;
  the definitions of the second carry the suffix \<open>_c\<close>.

  A Go \<^verbatim>\<open>[]byte\<close> is a window on an array: \<^verbatim>\<open>len\<close> visible elements and the
  elements up to \<^verbatim>\<open>cap\<close> that a re-slice may reach. \<open>data\<close> holds the first,
  \<open>spare\<close> the second. An index expression is checked against \<^verbatim>\<open>len\<close>, a slice
  expression against \<^verbatim>\<open>cap\<close>; a failed check is a run-time panic.
  Go's \<^verbatim>\<open>int\<close> offsets are natural numbers here: every offset of the decoder
  starts at 12 or at a byte value and only grows by byte and 16-bit amounts while it
  stays below the buffer's capacity, so neither a negative value nor a 64-bit overflow
  can occur. A Go \<^verbatim>\<open>string\<close> is its byte sequence.
\<close>

type_synonym byte = "8 word"

type_synonym gostring = "byte list"

datatype 'a res = Panic | Ret 'a

record slice =
  data :: "byte list"
  spare :: "byte list"

definition full :: "byte list \<Rightarrow> slice" where
  "full bs = \<lparr>data = bs, spare = []\<rparr>"

definition str :: "string \<Rightarrow> gostring" where
  "str s = map of_char s"

text \<open>The elements of the underlying array from the slice's start to its capacity.\<close>
definition backing :: "slice \<Rightarrow> byte list" where
  "backing s = data s @ spare s"

definition cap :: "slice \<Rightarrow> nat" where
  "cap s = length (backing s)"

text \<open>\<^verbatim>\<open>s[i]\<close>\<close>
definition idx :: "slice \<Rightarrow> nat \<Rightarrow> byte res" where
  "idx s i = (if i < length (data s) then Ret (data s ! i) else Panic)"

text \<open>\<^verbatim>\<open>s[lo:hi]\<close>\<close>
definition reslice :: "slice \<Rightarrow> nat \<Rightarrow> nat \<Rightarrow> slice res" where
  "reslice s lo hi =
     (if lo \<le> hi \<and> hi \<le> cap s
      then Ret \<lparr>data = take (hi - lo) (drop lo (backing s)), spare = drop hi (backing s)\<rparr>
      else Panic)"

text \<open>\<^verbatim>\<open>binary.BigEndian.Uint16(b)\<close> and \<^verbatim>\<open>Uint32(b)\<close> of the standard library:
  a bounds check on the last byte read, then shifts and ors.\<close>

definition Uint16 :: "slice \<Rightarrow> 16 word res" where
  "Uint16 b =
     (if length (data b) < 2 then Panic
      else Ret (ucast (data b ! 1) OR push_bit 8 (ucast (data b ! 0))))"

definition Uint32 :: "slice \<Rightarrow> 32 word res" where
  "Uint32 b =
     (if length (data b) < 4 then Panic
      else Ret (ucast (data b ! 3) OR push_bit 8 (ucast (data b ! 2))
                OR push_bit 16 (ucast (data b ! 1)) OR push_bit 24 (ucast (data b ! 0))))"

text \<open>\<^verbatim>\<open>binary.BigEndian.Uint16(buffer[lo : lo+2])\<close>, as every field read is written.\<close>

definition Uint16_at :: "slice \<Rightarrow> nat \<Rightarrow> 16 word res" where
  "Uint16_at buffer lo =
     (case reslice buffer lo (lo + 2) of Panic \<Rightarrow> Panic | Ret b \<Rightarrow> Uint16 b)"

definition Uint32_at :: "slice \<Rightarrow> nat \<Rightarrow> 32 word res" where
  "Uint32_at buffer lo =
     (case reslice buffer lo (lo + 4) of Panic \<Rightarrow> Panic | Ret b \<Rightarrow> Uint32 b)"

text \<open>\<^verbatim>\<open>strings.Join(elems, sep)\<close>\<close>
fun Join :: "gostring list \<Rightarrow> gostring \<Rightarrow> gostring" where
  "Join [] sep = []"
| "Join [x] sep = x"
| "Join (x # y # ys) sep = x @ sep @ Join (y # ys) sep"

section \<open>The message types\<close>

record Header =
  ID :: "16 word"
  Flags :: "16 word"
  QdCount :: "16 word"
  AnCount :: "16 word"
  NsCount :: "16 word"
  ArCount :: "16 word"

record Question =
  QName :: gostring
  QType :: "16 word"
  QClass :: "16 word"

text \<open>\<open>RData\<close> is the content of the Go slice (what structural equality compares).\<close>

record Resource =
  RName :: gostring
  RType :: "16 word"
  RClass :: "16 word"
  RTtl :: "32 word"
  RDlength :: "16 word"
  RData :: "byte list"

record Payload =
  Header :: Header
  Questions :: "Question list"
  Answers :: "Resource list"
  Authorities :: "Resource list"
  Additionals :: "Resource list"

text \<open>The zero value \<^verbatim>\<open>var payload Payload\<close>.\<close>

definition zero_Payload :: Payload where
  "zero_Payload =
     \<lparr>Header = \<lparr>ID = 0, Flags = 0, QdCount = 0, AnCount = 0, NsCount = 0, ArCount = 0\<rparr>,
      Questions = [], Answers = [], Authorities = [], Additionals = []\<rparr>"

text \<open>What \<^verbatim>\<open>Read\<close> prints, one event for each \<^verbatim>\<open>fmt.Printf\<close>.\<close>

datatype event =
  PrintByte nat byte
  | PrintHeader Header
  | PrintQuestion Question
  | PrintAnswer Resource

section \<open>parser.go\<close>

definition parseHeader :: "slice \<Rightarrow> Header res" where
  "parseHeader buffer =
     (case Uint16_at buffer 0 of Panic \<Rightarrow> Panic | Ret ident \<Rightarrow>
     (case Uint16_at buffer 2 of Panic \<Rightarrow> Panic | Ret flags \<Rightarrow>
     (case Uint16_at buffer 4 of Panic \<Rightarrow> Panic | Ret qd \<Rightarrow>
     (case Uint16_at buffer 6 of Panic \<Rightarrow> Panic | Ret an \<Rightarrow>
     (case Uint16_at buffer 8 of Panic \<Rightarrow> Panic | Ret ns \<Rightarrow>
     (case Uint16_at buffer 10 of Panic \<Rightarrow> Panic | Ret ar \<Rightarrow>
      Ret \<lparr>ID = ident, Flags = flags, QdCount = qd, AnCount = an,
           NsCount = ns, ArCount = ar\<rparr>))))))"

text \<open>The \<^verbatim>\<open>for\<close> loop of \<^verbatim>\<open>parseDomainName\<close>: the labels so far and the cursor
  \<^verbatim>\<open>startOff\<close>; it returns both at the \<^verbatim>\<open>break\<close>.\<close>

function parseDomainName_loop :: "slice \<Rightarrow> gostring list \<Rightarrow> nat \<Rightarrow> (gostring list \<times> nat) res" where
  "parseDomainName_loop buffer labels startOff =
     (case idx buffer startOff of Panic \<Rightarrow> Panic | Ret b \<Rightarrow>
        (if unat b = 0 then Ret (labels, startOff + 1)
         else (case reslice buffer (startOff + 1) (startOff + 1 + unat b) of Panic \<Rightarrow> Panic
               | Ret label \<Rightarrow>
                   parseDomainName_loop buffer (labels @ [data label]) (startOff + 1 + unat b))))"
  by pat_completeness auto
termination
  by (relation "measure (\<lambda>(buffer, labels, startOff). length (data buffer) - startOff)")
     (auto simp: idx_def split: if_splits)

declare parseDomainName_loop.simps [simp del]

definition parseDomainName :: "slice \<Rightarrow> nat \<Rightarrow> (gostring \<times> nat) res" where
  "parseDomainName buffer offset =
     (case parseDomainName_loop buffer [] offset of Panic \<Rightarrow> Panic
      | Ret (labels, startOff) \<Rightarrow> Ret (Join labels (str ''.''), startOff - offset))"

text \<open>The call sites of parser.go bind three results of \<^verbatim>\<open>parseDomainName\<close>, which
  returns two; the third is discarded there, so the two are what is used.\<close>

definition parseQuestion :: "slice \<Rightarrow> nat \<Rightarrow> (Question \<times> nat) res" where
  "parseQuestion buffer offset =
     (case parseDomainName buffer offset of Panic \<Rightarrow> Panic | Ret (qname, n) \<Rightarrow>
     (case Uint16_at buffer (offset + n) of Panic \<Rightarrow> Panic | Ret qtype \<Rightarrow>
     (case Uint16_at buffer (offset + n + 2) of Panic \<Rightarrow> Panic | Ret qclass \<Rightarrow>
      Ret (\<lparr>QName = qname, QType = qtype, QClass = qclass\<rparr>, offset + n + 2 + 2))))"

definition parseResource :: "slice \<Rightarrow> nat \<Rightarrow> (Resource \<times> nat) res" where
  "parseResource buffer offset =
     (case parseDomainName buffer offset of Panic \<Rightarrow> Panic | Ret (rname, n) \<Rightarrow>
     (case Uint16_at buffer (offset + n) of Panic \<Rightarrow> Panic | Ret rtype \<Rightarrow>
     (case Uint16_at buffer (offset + n + 2) of Panic \<Rightarrow> Panic | Ret rclass \<Rightarrow>
     (case Uint32_at buffer (offset + n + 2 + 2) of Panic \<Rightarrow> Panic | Ret rttl \<Rightarrow>
     (case Uint16_at buffer (offset + n + 2 + 2 + 4) of Panic \<Rightarrow> Panic | Ret rdlen \<Rightarrow>
     (case reslice buffer (offset + n + 2 + 2 + 4 + 2) (offset + n + 2 + 2 + 4 + 2 + unat rdlen) of
        Panic \<Rightarrow> Panic
      | Ret rddata \<Rightarrow>
          Ret (\<lparr>RName = rname, RType = rtype, RClass = rclass, RTtl = rttl,
                RDlength = rdlen, RData = data rddata\<rparr>,
               offset + n + 2 + 2 + 4 + 2 + unat rdlen)))))))"

text \<open>The four \<^verbatim>\<open>for i = 0; i < count; i++\<close> loops of \<^verbatim>\<open>Read\<close>, with the 16-bit
  counter \<open>i\<close>, the cursor \<open>index\<close> and the list appended to.\<close>

function questions_loop ::
  "slice \<Rightarrow> 16 word \<Rightarrow> 16 word \<Rightarrow> nat \<Rightarrow> Question list \<Rightarrow> (Question list \<times> nat) res" where
  "questions_loop buffer count i index acc =
     (if i < count
      then (case parseQuestion buffer index of Panic \<Rightarrow> Panic
            | Ret (q, newIndex) \<Rightarrow> questions_loop buffer count (i + 1) newIndex (acc @ [q]))
      else Ret (acc, index))"
  by pat_completeness auto
termination
proof -
  have step: "unat count - unat (i + 1) < unat count - unat i"
    if "i < count" for i count :: "16 word"
  proof -
    from that have lt: "unat i < unat count" by (simp add: word_less_nat_alt)
    have "unat count < 65536" using unsigned_less [of count, where ?'a = nat] by simp
    with lt have "unat (i + 1) = unat i + 1" by (simp add: unat_word_ariths)
    with lt show ?thesis by simp
  qed
  show ?thesis
    by (relation "measure (\<lambda>(buffer, count, i, index, acc). unat count - unat i)")
       (simp_all add: step)
qed

declare questions_loop.simps [simp del]

function resources_loop ::
  "slice \<Rightarrow> 16 word \<Rightarrow> 16 word \<Rightarrow> nat \<Rightarrow> Resource list \<Rightarrow> (Resource list \<times> nat) res" where
  "resources_loop buffer count i index acc =
     (if i < count
      then (case parseResource buffer index of Panic \<Rightarrow> Panic
            | Ret (r, newIndex) \<Rightarrow> resources_loop buffer count (i + 1) newIndex (acc @ [r]))
      else Ret (acc, index))"
  by pat_completeness auto
termination
proof -
  have step: "unat count - unat (i + 1) < unat count - unat i"
    if "i < count" for i count :: "16 word"
  proof -
    from that have lt: "unat i < unat count" by (simp add: word_less_nat_alt)
    have "unat count < 65536" using unsigned_less [of count, where ?'a = nat] by simp
    with lt have "unat (i + 1) = unat i + 1" by (simp add: unat_word_ariths)
    with lt show ?thesis by simp
  qed
  show ?thesis
    by (relation "measure (\<lambda>(buffer, count, i, index, acc). unat count - unat i)")
       (simp_all add: step)
qed

declare resources_loop.simps [simp del]

text \<open>The byte dump \<^verbatim>\<open>for i, b := range buffer[:n]\<close>.\<close>

definition dump :: "slice \<Rightarrow> event list" where
  "dump s = map (\<lambda>i. PrintByte i (data s ! i)) [0 ..< length (data s)]"

definition ShortHeader :: string where
  "ShortHeader = ''message Header does not meet the minimun required length''"

text \<open>\<^verbatim>\<open>Read\<close> returns what it printed and either a panic or the pair
  \<^verbatim>\<open>(Payload, error)\<close>, the error \<open>None\<close> for \<^verbatim>\<open>nil\<close>.\<close>

definition Read :: "slice \<Rightarrow> int \<Rightarrow> event list \<times> (Payload \<times> string option) res" where
  "Read buffer n =
     (if n < 0 then ([], Panic) else
     (case reslice buffer 0 (nat n) of Panic \<Rightarrow> ([], Panic) | Ret dumped \<Rightarrow>
     (if length (data buffer) < 12 then (dump dumped, Ret (zero_Payload, Some ShortHeader)) else
     (case reslice buffer 0 12 of Panic \<Rightarrow> (dump dumped, Panic) | Ret hd12 \<Rightarrow>
     (case parseHeader hd12 of Panic \<Rightarrow> (dump dumped, Panic) | Ret h \<Rightarrow>
     (case questions_loop buffer (QdCount h) 0 12 [] of
        Panic \<Rightarrow> (dump dumped @ [PrintHeader h], Panic) | Ret (qs, index1) \<Rightarrow>
     (case resources_loop buffer (AnCount h) 0 index1 [] of
        Panic \<Rightarrow> (dump dumped @ [PrintHeader h], Panic) | Ret (ans, index2) \<Rightarrow>
     (case resources_loop buffer (NsCount h) 0 index2 [] of
        Panic \<Rightarrow> (dump dumped @ [PrintHeader h], Panic) | Ret (nss, index3) \<Rightarrow>
     (case resources_loop buffer (ArCount h) 0 index3 [] of
        Panic \<Rightarrow> (dump dumped @ [PrintHeader h], Panic) | Ret (ars, index4) \<Rightarrow>
      (dump dumped @ [PrintHeader h] @ map PrintQuestion qs @ map PrintAnswer ans,
       Ret (\<lparr>Header = h, Questions = qs, Answers = ans, Authorities = nss,
             Additionals = ars\<rparr>, None)))))))))))"

section \<open>The second parser file: pointers and the NS case\<close>

text \<open>
  \<^verbatim>\<open>parseDomainName\<close> of this file calls itself at the offset a pointer names, with
  nothing that bounds the calls, so it need not return: \<open>None\<close> is a run that never
  returns (in Go the stack grows until the runtime aborts the process), \<open>Some Panic\<close>
  a failed bounds check, \<open>Some (Ret r)\<close> a result. The loop carries the string
  \<^verbatim>\<open>labels\<close> and the cursor \<^verbatim>\<open>startOff\<close>; the test of the terminating octet is
  \<^verbatim>\<open>buffer[len] == 0\<close>, as the source has it.
\<close>

partial_function (option) parseDomainName_c_loop ::
  "slice \<Rightarrow> gostring \<Rightarrow> nat \<Rightarrow> (gostring \<times> nat) res option" where
  "parseDomainName_c_loop buffer labels startOff =
     (case idx buffer startOff of Panic \<Rightarrow> Some Panic | Ret b \<Rightarrow>
        (if unat b = 192
         then (case idx buffer (startOff + 1) of Panic \<Rightarrow> Some Panic | Ret p \<Rightarrow>
                 Option.bind (parseDomainName_c_loop buffer [] (unat p))
                   (\<lambda>r. case r of Panic \<Rightarrow> Some Panic
                         | Ret (label, e) \<Rightarrow> Some (Ret (labels @ label, startOff + 2))))
         else (case reslice buffer (startOff + 1) (startOff + 1 + unat b) of
                 Panic \<Rightarrow> Some Panic
               | Ret label \<Rightarrow>
                   (case idx buffer (unat b) of Panic \<Rightarrow> Some Panic | Ret z \<Rightarrow>
                      (if z = 0
                       then Some (Ret (labels @ data label, startOff + (unat b + 1) + 1))
                       else parseDomainName_c_loop buffer (labels @ data label @ str ''.'')
                              (startOff + (unat b + 1)))))))"

definition parseDomainName_c :: "slice \<Rightarrow> nat \<Rightarrow> (gostring \<times> nat) res option" where
  "parseDomainName_c buffer offset =
     (case parseDomainName_c_loop buffer [] offset of None \<Rightarrow> None
      | Some Panic \<Rightarrow> Some Panic
      | Some (Ret (labels, startOff)) \<Rightarrow> Some (Ret (labels, startOff - offset)))"

definition parseQuestion_c :: "slice \<Rightarrow> nat \<Rightarrow> (Question \<times> nat) res option" where
  "parseQuestion_c buffer offset =
     (case parseDomainName_c buffer offset of None \<Rightarrow> None
      | Some Panic \<Rightarrow> Some Panic
      | Some (Ret (qname, n)) \<Rightarrow>
     (case Uint16_at buffer (offset + n) of Panic \<Rightarrow> Some Panic | Ret qtype \<Rightarrow>
     (case Uint16_at buffer (offset + n + 2) of Panic \<Rightarrow> Some Panic | Ret qclass \<Rightarrow>
      Some (Ret (\<lparr>QName = qname, QType = qtype, QClass = qclass\<rparr>, offset + n + 2 + 2)))))"

text \<open>For type 2 (NS) and class 1 (IN), \<^verbatim>\<open>RData\<close> is the name decoded from the RDATA
  slice at offset 0 of that slice; for every other pair it is the RDATA slice.\<close>

definition parseResource_c :: "slice \<Rightarrow> nat \<Rightarrow> (Resource \<times> nat) res option" where
  "parseResource_c buffer offset =
     (case parseDomainName_c buffer offset of None \<Rightarrow> None
      | Some Panic \<Rightarrow> Some Panic
      | Some (Ret (rname, n)) \<Rightarrow>
     (case Uint16_at buffer (offset + n) of Panic \<Rightarrow> Some Panic | Ret rtype \<Rightarrow>
     (case Uint16_at buffer (offset + n + 2) of Panic \<Rightarrow> Some Panic | Ret rclass \<Rightarrow>
     (case Uint32_at buffer (offset + n + 2 + 2) of Panic \<Rightarrow> Some Panic | Ret rttl \<Rightarrow>
     (case Uint16_at buffer (offset + n + 2 + 2 + 4) of Panic \<Rightarrow> Some Panic | Ret rdlen \<Rightarrow>
     (if rtype = 2 \<and> rclass = 1
      then (case reslice buffer (offset + n + 2 + 2 + 4 + 2)
                   (offset + n + 2 + 2 + 4 + 2 + unat rdlen) of
              Panic \<Rightarrow> Some Panic
            | Ret rdataBuffer \<Rightarrow>
               (case parseDomainName_c rdataBuffer 0 of None \<Rightarrow> None
                | Some Panic \<Rightarrow> Some Panic
                | Some (Ret (domainName, e)) \<Rightarrow>
                    Some (Ret (\<lparr>RName = rname, RType = rtype, RClass = rclass, RTtl = rttl,
                                RDlength = rdlen, RData = domainName\<rparr>,
                               offset + n + 2 + 2 + 4 + 2 + unat rdlen))))
      else (case reslice buffer (offset + n + 2 + 2 + 4 + 2)
                   (offset + n + 2 + 2 + 4 + 2 + unat rdlen) of
              Panic \<Rightarrow> Some Panic
            | Ret rddata \<Rightarrow>
                Some (Ret (\<lparr>RName = rname, RType = rtype, RClass = rclass, RTtl = rttl,
                            RDlength = rdlen, RData = data rddata\<rparr>,
                           offset + n + 2 + 2 + 4 + 2 + unat rdlen)))))))))"

function questions_loop_c ::
  "slice \<Rightarrow> 16 word \<Rightarrow> 16 word \<Rightarrow> nat \<Rightarrow> Question list
   \<Rightarrow> (Question list \<times> nat) res option" where
  "questions_loop_c buffer count i index acc =
     (if i < count
      then (case parseQuestion_c buffer index of None \<Rightarrow> None
            | Some Panic \<Rightarrow> Some Panic
            | Some (Ret (q, newIndex)) \<Rightarrow>
                questions_loop_c buffer count (i + 1) newIndex (acc @ [q]))
      else Some (Ret (acc, index)))"
  by pat_completeness auto
termination
proof -
  have step: "unat count - unat (i + 1) < unat count - unat i"
    if "i < count" for i count :: "16 word"
  proof -
    from that have lt: "unat i < unat count" by (simp add: word_less_nat_alt)
    have "unat count < 65536" using unsigned_less [of count, where ?'a = nat] by simp
    with lt have "unat (i + 1) = unat i + 1" by (simp add: unat_word_ariths)
    with lt show ?thesis by simp
  qed
  show ?thesis
    by (relation "measure (\<lambda>(buffer, count, i, index, acc). unat count - unat i)")
       (simp_all add: step)
qed

declare questions_loop_c.simps [simp del]

function resources_loop_c ::
  "slice \<Rightarrow> 16 word \<Rightarrow> 16 word \<Rightarrow> nat \<Rightarrow> Resource list
   \<Rightarrow> (Resource list \<times> nat) res option" where
  "resources_loop_c buffer count i index acc =
     (if i < count
      then (case parseResource_c buffer index of None \<Rightarrow> None
            | Some Panic \<Rightarrow> Some Panic
            | Some (Ret (r, newIndex)) \<Rightarrow>
                resources_loop_c buffer count (i + 1) newIndex (acc @ [r]))
      else Some (Ret (acc, index)))"
  by pat_completeness auto
termination
proof -
  have step: "unat count - unat (i + 1) < unat count - unat i"
    if "i < count" for i count :: "16 word"
  proof -
    from that have lt: "unat i < unat count" by (simp add: word_less_nat_alt)
    have "unat count < 65536" using unsigned_less [of count, where ?'a = nat] by simp
    with lt have "unat (i + 1) = unat i + 1" by (simp add: unat_word_ariths)
    with lt show ?thesis by simp
  qed
  show ?thesis
    by (relation "measure (\<lambda>(buffer, count, i, index, acc). unat count - unat i)")
       (simp_all add: step)
qed

declare resources_loop_c.simps [simp del]

text \<open>\<^verbatim>\<open>Read\<close> of this file has the text of the one above. The second component is
  \<open>None\<close> when a name decode never returns.\<close>

definition Read_c ::
  "slice \<Rightarrow> int \<Rightarrow> event list \<times> (Payload \<times> string option) res option" where
  "Read_c buffer n =
     (if n < 0 then ([], Some Panic) else
     (case reslice buffer 0 (nat n) of Panic \<Rightarrow> ([], Some Panic) | Ret dumped \<Rightarrow>
     (if length (data buffer) < 12
      then (dump dumped, Some (Ret (zero_Payload, Some ShortHeader))) else
     (case reslice buffer 0 12 of Panic \<Rightarrow> (dump dumped, Some Panic) | Ret hd12 \<Rightarrow>
     (case parseHeader hd12 of Panic \<Rightarrow> (dump dumped, Some Panic) | Ret h \<Rightarrow>
     (case questions_loop_c buffer (QdCount h) 0 12 [] of
        None \<Rightarrow> (dump dumped @ [PrintHeader h], None)
      | Some Panic \<Rightarrow> (dump dumped @ [PrintHeader h], Some Panic)
      | Some (Ret (qs, index1)) \<Rightarrow>
     (case resources_loop_c buffer (AnCount h) 0 index1 [] of
        None \<Rightarrow> (dump dumped @ [PrintHeader h], None)
      | Some Panic \<Rightarrow> (dump dumped @ [PrintHeader h], Some Panic)
      | Some (Ret (ans, index2)) \<Rightarrow>
     (case resources_loop_c buffer (NsCount h) 0 index2 [] of
        None \<Rightarrow> (dump dumped @ [PrintHeader h], None)
      | Some Panic \<Rightarrow> (dump dumped @ [PrintHeader h], Some Panic)
      | Some (Ret (nss, index3)) \<Rightarrow>
     (case resources_loop_c buffer (ArCount h) 0 index3 [] of
        None \<Rightarrow> (dump dumped @ [PrintHeader h], None)
      | Some Panic \<Rightarrow> (dump dumped @ [PrintHeader h], Some Panic)
      | Some (Ret (ars, index4)) \<Rightarrow>
      (dump dumped @ [PrintHeader h] @ map PrintQuestion qs @ map PrintAnswer ans,
       Some (Ret (\<lparr>Header = h, Questions = qs, Answers = ans, Authorities = nss,
                   Additionals = ars\<rparr>, None))))))))))))"

section \<open>Names on the wire\<close>

text \<open>
  The two notions that the statements about names use, written from the specification's
  words and not from the code: the uncompressed encoding of a sequence of labels (each
  label after its length octet, then a zero octet), and a byte sequence lying in the
  buffer's \<^verbatim>\<open>len\<close> bytes at an offset.
\<close>

fun wire :: "gostring list \<Rightarrow> byte list" where
  "wire [] = [0]"
| "wire (l # ls) = of_nat (length l) # l @ wire ls"

definition holds_at :: "slice \<Rightarrow> nat \<Rightarrow> byte list \<Rightarrow> bool" where
  "holds_at buffer offset bs \<longleftrightarrow>
     offset + length bs \<le> length (data buffer)
     \<and> take (length bs) (drop offset (data buffer)) = bs"

section \<open>Slices and the primitive readers\<close>

lemma or_add16: "(ucast (lo8 :: byte) OR push_bit 8 (ucast (hi8 :: byte)) :: 16 word) = ucast lo8 + push_bit 8 (ucast hi8)"
  by (rule disjunctive_add_eq_or [symmetric], rule bit_eqI) (auto simp: bit_simps dest: bit_imp_le_length)

lemma unat_byte_less: "unat (b :: byte) < 256"
  using unsigned_less [of b, where ?'a = nat] by simp

lemma unat_ucast8: "unat (ucast (b :: byte) :: 16 word) = unat b"
  using unat_byte_less [of b] by (simp add: unsigned_ucast_eq take_bit_nat_eq_self)

lemma be16_unat:
  "unat (ucast (lo8 :: byte) OR push_bit 8 (ucast (hi8 :: byte)) :: 16 word) = 256 * unat hi8 + unat lo8"
proof -
  have b1: "unat lo8 < 256" by (rule unat_byte_less)
  have b2: "unat hi8 < 256" by (rule unat_byte_less)
  have "unat (push_bit 8 (ucast hi8 :: 16 word)) = 256 * unat hi8"
    using b2 by (simp add: push_bit_eq_mult unat_word_ariths unat_ucast8)
  then show ?thesis
    using b1 b2 by (simp add: or_add16 unat_word_ariths unat_ucast8)
qed

lemma reslice_Ret:
  "lo \<le> hi \<Longrightarrow> hi \<le> cap s \<Longrightarrow>
   reslice s lo hi = Ret \<lparr>data = take (hi - lo) (drop lo (backing s)), spare = drop hi (backing s)\<rparr>"
  by (simp add: reslice_def)

lemma reslice_Panic_iff: "reslice s lo hi = Panic \<longleftrightarrow> \<not> (lo \<le> hi \<and> hi \<le> cap s)"
  by (simp add: reslice_def)

lemma reslice_data:
  "reslice s lo hi = Ret t \<Longrightarrow> data t = take (hi - lo) (drop lo (backing s))"
  by (auto simp: reslice_def split: if_splits)

lemma reslice_length:
  "reslice s lo hi = Ret t \<Longrightarrow> length (data t) = hi - lo"
  by (auto simp: reslice_def cap_def split: if_splits)

lemma reslice_nth:
  "reslice s lo hi = Ret t \<Longrightarrow> k < hi - lo \<Longrightarrow> data t ! k = backing s ! (lo + k)"
  by (auto simp: reslice_def cap_def split: if_splits)

lemma reslice_backing:
  assumes "reslice s lo hi = Ret t"
  shows "backing t = drop lo (backing s)"
proof -
  from assms have le: "lo \<le> hi" and t: "data t = take (hi - lo) (drop lo (backing s))"
    "spare t = drop hi (backing s)"
    by (auto simp: reslice_def split: if_splits)
  have "drop hi (backing s) = drop (hi - lo) (drop lo (backing s))"
    using le by simp
  then show ?thesis
    unfolding backing_def [of t] t by (simp only: append_take_drop_id)
qed

lemma backing_nth: "k < length (data s) \<Longrightarrow> backing s ! k = data s ! k"
  by (simp add: backing_def nth_append)

lemma len_le_cap: "length (data s) \<le> cap s"
  by (simp add: cap_def backing_def)

lemma Uint16_at_Ret:
  assumes "lo + 2 \<le> cap buffer"
  shows "Uint16_at buffer lo =
     Ret (ucast (backing buffer ! (lo + 1)) OR push_bit 8 (ucast (backing buffer ! lo)))"
proof -
  obtain b where b: "reslice buffer lo (lo + 2) = Ret b"
    using assms by (simp add: reslice_def)
  have "length (data b) = 2" using reslice_length [OF b] by simp
  moreover have "data b ! 0 = backing buffer ! lo" "data b ! 1 = backing buffer ! (lo + 1)"
    using reslice_nth [OF b, of 0] reslice_nth [OF b, of 1] by simp_all
  ultimately show ?thesis unfolding Uint16_at_def b by (simp add: Uint16_def)
qed

lemma Uint16_at_Panic_iff: "Uint16_at buffer lo = Panic \<longleftrightarrow> cap buffer < lo + 2"
proof (cases "lo + 2 \<le> cap buffer")
  case True
  then show ?thesis using Uint16_at_Ret [OF True] by simp
next
  case False
  then show ?thesis by (simp add: Uint16_at_def reslice_def)
qed

lemma Uint32_at_Ret:
  assumes "lo + 4 \<le> cap buffer"
  shows "Uint32_at buffer lo =
     Ret (ucast (backing buffer ! (lo + 3))
          OR push_bit 8 (ucast (backing buffer ! (lo + 2)))
          OR push_bit 16 (ucast (backing buffer ! (lo + 1)))
          OR push_bit 24 (ucast (backing buffer ! lo)))"
proof -
  obtain b where b: "reslice buffer lo (lo + 4) = Ret b"
    using assms by (simp add: reslice_def)
  have "length (data b) = 4" using reslice_length [OF b] by simp
  moreover have "data b ! 0 = backing buffer ! lo" "data b ! 1 = backing buffer ! (lo + 1)"
    "data b ! 2 = backing buffer ! (lo + 2)" "data b ! 3 = backing buffer ! (lo + 3)"
    using reslice_nth [OF b, of 0] reslice_nth [OF b, of 1]
      reslice_nth [OF b, of 2] reslice_nth [OF b, of 3] by simp_all
  ultimately show ?thesis unfolding Uint32_at_def b by (simp add: Uint32_def)
qed

lemma Uint32_at_Panic_iff: "Uint32_at buffer lo = Panic \<longleftrightarrow> cap buffer < lo + 4"
proof (cases "lo + 4 \<le> cap buffer")
  case True
  then show ?thesis using Uint32_at_Ret [OF True] by simp
next
  case False
  then show ?thesis by (simp add: Uint32_at_def reslice_def)
qed

lemma parseHeader_Ret:
  assumes "12 \<le> cap b"
  shows "parseHeader b =
    Ret \<lparr>ID = ucast (backing b ! 1) OR push_bit 8 (ucast (backing b ! 0)),
         Flags = ucast (backing b ! 3) OR push_bit 8 (ucast (backing b ! 2)),
         QdCount = ucast (backing b ! 5) OR push_bit 8 (ucast (backing b ! 4)),
         AnCount = ucast (backing b ! 7) OR push_bit 8 (ucast (backing b ! 6)),
         NsCount = ucast (backing b ! 9) OR push_bit 8 (ucast (backing b ! 8)),
         ArCount = ucast (backing b ! 11) OR push_bit 8 (ucast (backing b ! 10))\<rparr>"
proof -
  have "Uint16_at b 0 = Ret (ucast (backing b ! 1) OR push_bit 8 (ucast (backing b ! 0)))"
    using Uint16_at_Ret [of 0 b] assms by simp
  moreover have "Uint16_at b 2 = Ret (ucast (backing b ! 3) OR push_bit 8 (ucast (backing b ! 2)))"
    using Uint16_at_Ret [of 2 b] assms by simp
  moreover have "Uint16_at b 4 = Ret (ucast (backing b ! 5) OR push_bit 8 (ucast (backing b ! 4)))"
    using Uint16_at_Ret [of 4 b] assms by simp
  moreover have "Uint16_at b 6 = Ret (ucast (backing b ! 7) OR push_bit 8 (ucast (backing b ! 6)))"
    using Uint16_at_Ret [of 6 b] assms by simp
  moreover have "Uint16_at b 8 = Ret (ucast (backing b ! 9) OR push_bit 8 (ucast (backing b ! 8)))"
    using Uint16_at_Ret [of 8 b] assms by simp
  moreover have "Uint16_at b 10 = Ret (ucast (backing b ! 11) OR push_bit 8 (ucast (backing b ! 10)))"
    using Uint16_at_Ret [of 10 b] assms by simp
  ultimately show ?thesis by (simp add: parseHeader_def)
qed

lemma Read_header:
  assumes "snd (Read buffer n) = Ret (p, e)" and "12 \<le> length (data buffer)"
    and "reslice buffer 0 12 = Ret hd12" and "parseHeader hd12 = Ret h"
  shows "Header p = h"
  using assms by (auto simp: Read_def split: if_splits res.splits prod.splits)

lemma Read_c_header:
  assumes "snd (Read_c buffer n) = Some (Ret (p, e))" and "12 \<le> length (data buffer)"
    and "reslice buffer 0 12 = Ret hd12" and "parseHeader hd12 = Ret h"
  shows "Header p = h"
  using assms by (auto simp: Read_c_def split: if_splits res.splits prod.splits option.splits)

lemmas eval_defs = full_def backing_def cap_def idx_def reslice_def Uint16_def Uint32_def
  Uint16_at_def Uint32_at_def


section \<open>The header\<close>

text \<open>
  Claim C9. For every buffer of at least 12 bytes, the header that \<^verbatim>\<open>Read\<close> decodes
  (\<^verbatim>\<open>parseHeader(buffer[:12])\<close>) exists and its six fields ID, Flags, QdCount, AnCount,
  NsCount and ArCount are the unsigned big-endian 16-bit integers at the byte offsets
  0, 2, 4, 6, 8 and 10: each is 256 times the first byte plus the second. Whenever
  \<^verbatim>\<open>Read\<close> returns a payload, in either version of the parser, that header is the
  payload's.
\<close>

theorem parseHeader_big_endian:
  assumes "12 \<le> length (data buffer)"
  shows "\<exists>hd12 h. reslice buffer 0 12 = Ret hd12 \<and> parseHeader hd12 = Ret h
     \<and> unat (ID h) = 256 * unat (data buffer ! 0) + unat (data buffer ! 1)
     \<and> unat (Flags h) = 256 * unat (data buffer ! 2) + unat (data buffer ! 3)
     \<and> unat (QdCount h) = 256 * unat (data buffer ! 4) + unat (data buffer ! 5)
     \<and> unat (AnCount h) = 256 * unat (data buffer ! 6) + unat (data buffer ! 7)
     \<and> unat (NsCount h) = 256 * unat (data buffer ! 8) + unat (data buffer ! 9)
     \<and> unat (ArCount h) = 256 * unat (data buffer ! 10) + unat (data buffer ! 11)
     \<and> (\<forall>n p e. snd (Read buffer n) = Ret (p, e) \<longrightarrow> Header p = h)
     \<and> (\<forall>n p e. snd (Read_c buffer n) = Some (Ret (p, e)) \<longrightarrow> Header p = h)"
proof -
  have "12 \<le> cap buffer" using assms len_le_cap [of buffer] by simp
  then obtain hd12 where rs: "reslice buffer 0 12 = Ret hd12"
    by (simp add: reslice_def)
  have all: "backing hd12 = backing buffer"
    using reslice_backing [OF rs] by simp
  have nth: "\<And>k. k < 12 \<Longrightarrow> backing buffer ! k = data buffer ! k"
    using assms by (simp add: backing_nth)
  have c: "12 \<le> cap hd12" using \<open>12 \<le> cap buffer\<close> by (simp add: cap_def all)
  obtain h where h: "parseHeader hd12 = Ret h" using parseHeader_Ret [OF c] by simp
  have fields: "unat (ID h) = 256 * unat (data buffer ! 0) + unat (data buffer ! 1)"
    "unat (Flags h) = 256 * unat (data buffer ! 2) + unat (data buffer ! 3)"
    "unat (QdCount h) = 256 * unat (data buffer ! 4) + unat (data buffer ! 5)"
    "unat (AnCount h) = 256 * unat (data buffer ! 6) + unat (data buffer ! 7)"
    "unat (NsCount h) = 256 * unat (data buffer ! 8) + unat (data buffer ! 9)"
    "unat (ArCount h) = 256 * unat (data buffer ! 10) + unat (data buffer ! 11)"
    using h parseHeader_Ret [OF c] by (auto simp: all nth be16_unat)
  have "\<forall>n p e. snd (Read buffer n) = Ret (p, e) \<longrightarrow> Header p = h"
    using Read_header [OF _ assms rs h] by blast
  moreover have "\<forall>n p e. snd (Read_c buffer n) = Some (Ret (p, e)) \<longrightarrow> Header p = h"
    using Read_c_header [OF _ assms rs h] by blast
  ultimately show ?thesis using rs h fields by blast
qed

theorem parseHeader_big_endian_witness:
  "12 \<le> length (data (full [0x12, 0x34, 1, 0, 0, 0, 0, 0, 0, 0, 0, 0]))
   \<and> (\<exists>hd12 h. reslice (full [0x12, 0x34, 1, 0, 0, 0, 0, 0, 0, 0, 0, 0]) 0 12 = Ret hd12
        \<and> parseHeader hd12 = Ret h \<and> unat (ID h) = 4660 \<and> unat (Flags h) = 256
        \<and> unat (QdCount h) = 0 \<and> unat (AnCount h) = 0 \<and> unat (NsCount h) = 0
        \<and> unat (ArCount h) = 0
        \<and> (\<exists>p. snd (Read (full [0x12, 0x34, 1, 0, 0, 0, 0, 0, 0, 0, 0, 0]) 12) = Ret (p, None)
              \<and> Header p = h))"
proof -
  let ?b = "full [0x12, 0x34, 1, 0, 0, 0, 0, 0, 0, 0, 0, 0]"
  have len: "12 \<le> length (data ?b)" by (simp add: full_def)
  have rd: "\<exists>p. snd (Read ?b 12) = Ret (p, None)"
    by (simp add: Read_def parseHeader_def eval_defs questions_loop.simps resources_loop.simps)
  from parseHeader_big_endian [OF len] obtain hd12 h where
    h: "reslice ?b 0 12 = Ret hd12" "parseHeader hd12 = Ret h"
    "unat (ID h) = 256 * unat (data ?b ! 0) + unat (data ?b ! 1)"
    "unat (Flags h) = 256 * unat (data ?b ! 2) + unat (data ?b ! 3)"
    "unat (QdCount h) = 256 * unat (data ?b ! 4) + unat (data ?b ! 5)"
    "unat (AnCount h) = 256 * unat (data ?b ! 6) + unat (data ?b ! 7)"
    "unat (NsCount h) = 256 * unat (data ?b ! 8) + unat (data ?b ! 9)"
    "unat (ArCount h) = 256 * unat (data ?b ! 10) + unat (data ?b ! 11)"
    "\<forall>n p e. snd (Read ?b n) = Ret (p, e) \<longrightarrow> Header p = h"
    "\<forall>n p e. snd (Read_c ?b n) = Some (Ret (p, e)) \<longrightarrow> Header p = h"
    by blast
  from rd h(9) have "\<exists>p. snd (Read ?b 12) = Ret (p, None) \<and> Header p = h" by blast
  moreover from h(3-8) have "unat (ID h) = 4660" "unat (Flags h) = 256" "unat (QdCount h) = 0"
    "unat (AnCount h) = 0" "unat (NsCount h) = 0" "unat (ArCount h) = 0"
    by (simp_all add: full_def)
  ultimately show ?thesis using len h(1,2) by blast
qed

section \<open>The valid length \<open>n\<close> of \<^verbatim>\<open>Read\<close>\<close>

lemmas eval_parser = parseHeader_def parseDomainName_def parseDomainName_loop.simps
  parseQuestion_def parseResource_def questions_loop.simps resources_loop.simps Read_def
  dump_def zero_Payload_def str_def

lemma reslice_prefix:
  assumes "0 \<le> n" "n \<le> int (length (data buffer))"
  shows "reslice buffer 0 (nat n) = Ret \<lparr>data = take (nat n) (data buffer),
            spare = drop (nat n) (backing buffer)\<rparr>"
proof -
  have "nat n \<le> length (data buffer)" using assms by simp
  then have "take (nat n) (backing buffer) = take (nat n) (data buffer)"
    by (simp add: backing_def)
  moreover have "nat n \<le> cap buffer" using \<open>nat n \<le> length (data buffer)\<close> len_le_cap [of buffer] by simp
  ultimately show ?thesis by (simp add: reslice_def)
qed

lemma dump_prefix:
  assumes "k \<le> length xs"
  shows "dump \<lparr>data = take k xs, spare = ys\<rparr> = map (\<lambda>i. PrintByte i (xs ! i)) [0 ..< k]"
  using assms by (simp add: dump_def min_def)

lemma Read_split:
  assumes "0 \<le> n" "n \<le> int (length (data buffer))"
  shows "Read buffer n =
    (map (\<lambda>i. PrintByte i (data buffer ! i)) [0 ..< nat n] @ fst (Read buffer 0),
     snd (Read buffer 0))"
proof -
  have k: "nat n \<le> length (data buffer)" using assms by simp
  have z: "reslice buffer 0 (nat 0) = Ret \<lparr>data = take (nat 0) (data buffer),
            spare = drop (nat 0) (backing buffer)\<rparr>"
    by (rule reslice_prefix) simp_all
  have d0: "dump \<lparr>data = [], spare = ys\<rparr> = []" for ys
    by (simp add: dump_def)
  show ?thesis
    unfolding Read_def [of buffer n] Read_def [of buffer 0] reslice_prefix [OF assms] z
    using assms(1)
    by (simp add: dump_prefix [OF k] d0 split: res.splits prod.splits)
qed

lemma Read_c_split:
  assumes "0 \<le> n" "n \<le> int (length (data buffer))"
  shows "Read_c buffer n =
    (map (\<lambda>i. PrintByte i (data buffer ! i)) [0 ..< nat n] @ fst (Read_c buffer 0),
     snd (Read_c buffer 0))"
proof -
  have k: "nat n \<le> length (data buffer)" using assms by simp
  have z: "reslice buffer 0 (nat 0) = Ret \<lparr>data = take (nat 0) (data buffer),
            spare = drop (nat 0) (backing buffer)\<rparr>"
    by (rule reslice_prefix) simp_all
  have d0: "dump \<lparr>data = [], spare = ys\<rparr> = []" for ys
    by (simp add: dump_def)
  show ?thesis
    unfolding Read_c_def [of buffer n] Read_c_def [of buffer 0] reslice_prefix [OF assms] z
    using assms(1)
    by (simp add: dump_prefix [OF k] d0 split: res.splits prod.splits option.splits)
qed

text \<open>
  Claim C10. The payload and the error that \<^verbatim>\<open>Read\<close> returns depend on the buffer
  only: for any two lengths \<open>n1\<close> and \<open>n2\<close> between 0 and \<^verbatim>\<open>len(buffer)\<close> the two
  calls return the same outcome (payload and error, panic, or no return), in both
  versions of the parser. What differs is the byte dump printed first: \<open>n\<close> lines, then
  the same lines in both calls. Bytes at and after \<open>n\<close> are decoded like the others.
\<close>

theorem Read_ignores_n:
  assumes "0 \<le> n1" "n1 \<le> int (length (data buffer))"
    and "0 \<le> n2" "n2 \<le> int (length (data buffer))"
  shows "snd (Read buffer n1) = snd (Read buffer n2)
     \<and> snd (Read_c buffer n1) = snd (Read_c buffer n2)
     \<and> (\<exists>rest. fst (Read buffer n1) = map (\<lambda>i. PrintByte i (data buffer ! i)) [0 ..< nat n1] @ rest
              \<and> fst (Read buffer n2) = map (\<lambda>i. PrintByte i (data buffer ! i)) [0 ..< nat n2] @ rest)
     \<and> (\<exists>rest. fst (Read_c buffer n1) = map (\<lambda>i. PrintByte i (data buffer ! i)) [0 ..< nat n1] @ rest
              \<and> fst (Read_c buffer n2) = map (\<lambda>i. PrintByte i (data buffer ! i)) [0 ..< nat n2] @ rest)"
  using Read_split [OF assms(1,2)] Read_split [OF assms(3,4)]
    Read_c_split [OF assms(1,2)] Read_c_split [OF assms(3,4)]
  by simp

theorem Read_ignores_n_witness:
  "(0::int) \<le> 12
   \<and> 12 \<le> int (length (data (full [0, 7, 1, 0, 0, 1, 0, 0, 0, 0, 0, 0, 0, 0, 1, 0, 1])))
   \<and> (0::int) \<le> 17
   \<and> 17 \<le> int (length (data (full [0, 7, 1, 0, 0, 1, 0, 0, 0, 0, 0, 0, 0, 0, 1, 0, 1])))
   \<and> snd (Read (full [0, 7, 1, 0, 0, 1, 0, 0, 0, 0, 0, 0, 0, 0, 1, 0, 1]) 12)
       = snd (Read (full [0, 7, 1, 0, 0, 1, 0, 0, 0, 0, 0, 0, 0, 0, 1, 0, 1]) 17)
   \<and> snd (Read_c (full [0, 7, 1, 0, 0, 1, 0, 0, 0, 0, 0, 0, 0, 0, 1, 0, 1]) 12)
       = snd (Read_c (full [0, 7, 1, 0, 0, 1, 0, 0, 0, 0, 0, 0, 0, 0, 1, 0, 1]) 17)
   \<and> snd (Read (full [0, 7, 1, 0, 0, 1, 0, 0, 0, 0, 0, 0, 0, 0, 1, 0, 1]) 17)
       = Ret (\<lparr>Header = \<lparr>ID = 7, Flags = 256, QdCount = 1, AnCount = 0, NsCount = 0,
                           ArCount = 0\<rparr>,
               Questions = [\<lparr>QName = [], QType = 1, QClass = 1\<rparr>], Answers = [],
               Authorities = [], Additionals = []\<rparr>, None)"
proof -
  let ?b = "full [0, 7, 1, 0, 0, 1, 0, 0, 0, 0, 0, 0, 0, 0, 1, 0, 1]"
  have h: "(0::int) \<le> 12" "12 \<le> int (length (data ?b))" "(0::int) \<le> 17"
    "17 \<le> int (length (data ?b))"
    by (simp_all add: full_def)
  have v: "snd (Read ?b 17)
       = Ret (\<lparr>Header = \<lparr>ID = 7, Flags = 256, QdCount = 1, AnCount = 0, NsCount = 0,
                           ArCount = 0\<rparr>,
               Questions = [\<lparr>QName = [], QType = 1, QClass = 1\<rparr>], Answers = [],
               Authorities = [], Additionals = []\<rparr>, None)"
    by (simp add: eval_defs eval_parser)
  from Read_ignores_n [OF h] v h show ?thesis by blast
qed

text \<open>
  Claim C6 (amended). The short-header check of \<^verbatim>\<open>Read\<close> is \<^verbatim>\<open>len(buffer) < 12\<close>:
  for every length \<open>n\<close> between 0 and \<^verbatim>\<open>len(buffer)\<close>, \<^verbatim>\<open>Read\<close> returns an error
  exactly when the buffer itself is shorter than 12 bytes, and then it returns the zero
  payload with the short-header error. The valid length \<open>n\<close> plays no part in it.
\<close>

theorem Read_short_header_iff:
  assumes "0 \<le> n" and "n \<le> int (length (data buffer))"
  shows "((\<exists>p e. snd (Read buffer n) = Ret (p, Some e)) \<longleftrightarrow> length (data buffer) < 12)
    \<and> (length (data buffer) < 12 \<longrightarrow>
         snd (Read buffer n) = Ret (zero_Payload, Some ShortHeader))"
proof -
  have r: "snd (Read buffer n) = snd (Read buffer 0)"
    using Read_split [OF assms] by simp
  have z: "reslice buffer 0 (nat 0) = Ret \<lparr>data = take (nat 0) (data buffer),
            spare = drop (nat 0) (backing buffer)\<rparr>"
    by (rule reslice_prefix) simp_all
  show ?thesis
    unfolding r Read_def [of buffer 0] z
    by (auto split: res.splits prod.splits)
qed

theorem Read_short_header_iff_witness:
  "(0::int) \<le> 3 \<and> 3 \<le> int (length (data (full [1, 2, 3])))
   \<and> length (data (full [1, 2, 3])) < 12
   \<and> snd (Read (full [1, 2, 3]) 3) = Ret (zero_Payload, Some ShortHeader)"
proof -
  have h: "(0::int) \<le> 3" "3 \<le> int (length (data (full [1, 2, 3])))"
    by (simp_all add: full_def)
  have l: "length (data (full [1, 2, 3])) < 12" by (simp add: full_def)
  from Read_short_header_iff [OF h] l h show ?thesis by blast
qed

text \<open>
  Claim C6 as stated fails: with a 12-byte buffer of zeros and \<open>n = 5\<close>, a datagram
  shorter than a header, \<^verbatim>\<open>Read\<close> returns the zero payload and no error.
\<close>

theorem Read_short_header_counterexample:
  "(5::int) < 12 \<and> 5 \<le> int (length (data (full [0, 0, 0, 0, 0, 0, 0, 0, 0, 0, 0, 0])))
   \<and> snd (Read (full [0, 0, 0, 0, 0, 0, 0, 0, 0, 0, 0, 0]) 5) = Ret (zero_Payload, None)"
  by (simp add: eval_defs eval_parser)

section \<open>Names in the second parser file\<close>

lemmas eval_parser_c = parseDomainName_c_def parseDomainName_c_loop.simps parseQuestion_c_def
  parseResource_c_def questions_loop_c.simps resources_loop_c.simps Read_c_def

lemma bind_Some_D: "Option.bind m f = Some y \<Longrightarrow> \<exists>x. m = Some x"
  by (cases m) simp_all

lemma example_never_returns_loop:
  assumes "parseDomainName_c_loop buffer0 labels0 startOff0 = Some y0"
  shows "\<not> (data buffer0 = [3, 99, 111, 109, 0, 3, 119, 119, 119, 192, 0] @ rest
            \<and> startOff0 \<in> {0, 4, 5, 9})"
proof (rule parseDomainName_c_loop.raw_induct [OF _ assms,
        where P = "\<lambda>b l s y. \<not> (data b = [3, 99, 111, 109, 0, 3, 119, 119, 119, 192, 0] @ rest
            \<and> s \<in> {0, 4, 5, 9})"], goal_cases)
  case (1 f buffer labels startOff y)
  note IH = "1"(1) and body = "1"(2)
  show ?case
  proof
    assume a: "data buffer = [3, 99, 111, 109, 0, 3, 119, 119, 119, 192, 0] @ rest
            \<and> startOff \<in> {0, 4, 5, 9}"
    then have d: "data buffer = [3, 99, 111, 109, 0, 3, 119, 119, 119, 192, 0] @ rest" by simp
    have c: "11 \<le> cap buffer" using len_le_cap [of buffer] d by simp
    from a consider "startOff = 0" | "startOff = 4" | "startOff = 5" | "startOff = 9" by auto
    then show False
    proof cases
      case 1
      with body c d have "\<exists>l. f buffer l 4 = Some y"
        by (auto simp: idx_def reslice_def)
      then obtain l where "f buffer l 4 = Some y" ..
      from IH [OF this] d show False by simp
    next
      case 2
      with body c d have "\<exists>l. f buffer l 5 = Some y"
        by (auto simp: idx_def reslice_def)
      then obtain l where "f buffer l 5 = Some y" ..
      from IH [OF this] d show False by simp
    next
      case 3
      with body c d have "\<exists>l. f buffer l 9 = Some y"
        by (auto simp: idx_def reslice_def)
      then obtain l where "f buffer l 9 = Some y" ..
      from IH [OF this] d show False by simp
    next
      case 4
      with body c d have "\<exists>x. f buffer [] 0 = Some x"
        by (auto simp: idx_def dest: bind_Some_D)
      then obtain x where "f buffer [] 0 = Some x" ..
      from IH [OF this] d show False by simp
    qed
  qed
qed

text \<open>
  Claim C2, at its example. The buffer holds \<^verbatim>\<open>[3,'c','o','m',0]\<close> at offset 0 and
  \<^verbatim>\<open>[3,'w','w','w',0xC0,0x00]\<close> at offset 5, followed by any bytes. The claim says that
  decoding the name at offset 5 returns \<^verbatim>\<open>"www.com"\<close> and consumes 6 bytes. The code
  never returns: after each label it tests \<^verbatim>\<open>buffer[len]\<close>, the byte at the index equal
  to the label's length, which is \<^verbatim>\<open>'m'\<close> for length 3 and 3 for length 0, so the zero
  octet at offset 4 does not end the name at offset 0, the decode runs on into the bytes
  at offset 5 and meets the pointer to offset 0 again.
\<close>

theorem parseDomainName_c_pointer_example:
  "parseDomainName_c \<lparr>data = [3, 99, 111, 109, 0, 3, 119, 119, 119, 192, 0] @ rest, spare = sp\<rparr> 5 = None"
proof -
  let ?b = "\<lparr>data = [3, 99, 111, 109, 0, 3, 119, 119, 119, 192, 0] @ rest, spare = sp\<rparr>"
  have "parseDomainName_c_loop ?b [] 5 = None"
  proof (cases "parseDomainName_c_loop ?b [] 5")
    case None then show ?thesis .
  next
    case (Some y)
    from example_never_returns_loop [OF this, of rest] show ?thesis by simp
  qed
  then show ?thesis by (simp add: parseDomainName_c_def)
qed

lemma self_pointer_never_returns_loop:
  assumes "parseDomainName_c_loop buffer0 labels0 startOff0 = Some y0"
  shows "\<not> (data buffer0 = [192, 0] \<and> startOff0 = 0)"
proof (rule parseDomainName_c_loop.raw_induct [OF _ assms,
        where P = "\<lambda>b l s y. \<not> (data b = [192, 0] \<and> s = 0)"], goal_cases)
  case (1 f buffer labels startOff y)
  note IH = "1"(1) and body = "1"(2)
  show ?case
  proof
    assume a: "data buffer = [192, 0] \<and> startOff = 0"
    with body have "\<exists>x. f buffer [] 0 = Some x"
      by (auto simp: idx_def dest: bind_Some_D)
    then obtain x where "f buffer [] 0 = Some x" ..
    from IH [OF this] a show False by simp
  qed
qed

text \<open>
  Claim C3 as stated fails: a pointer at offset 0 whose target is offset 0 is followed,
  not rejected, and the decode never returns; and a pointer at offset 2 whose target is
  offset 4, after it, is followed and the name found there is returned.
\<close>

theorem parseDomainName_c_self_pointer_counterexample:
  "parseDomainName_c (full [192, 0]) 0 = None
   \<and> parseDomainName_c (full [7, 0, 192, 4, 1, 97]) 2 = Some (Ret (str ''a'', 2))"
proof -
  have "parseDomainName_c_loop (full [192, 0]) [] 0 = None"
  proof (cases "parseDomainName_c_loop (full [192, 0]) [] 0")
    case None then show ?thesis .
  next
    case (Some y)
    from self_pointer_never_returns_loop [OF this] show ?thesis by (simp add: full_def)
  qed
  then have "parseDomainName_c (full [192, 0]) 0 = None"
    by (simp add: parseDomainName_c_def)
  moreover have "parseDomainName_c (full [7, 0, 192, 4, 1, 97]) 2 = Some (Ret (str ''a'', 2))"
    by (simp add: eval_defs eval_parser_c str_def)
  ultimately show ?thesis by simp
qed

lemma parseDomainName_c_loop_returns:
  assumes "192 \<notin> set (data buffer)"
  shows "\<exists>r. parseDomainName_c_loop buffer labels startOff = Some r"
proof (induction "length (data buffer) - startOff" arbitrary: labels startOff rule: less_induct)
  case less
  show ?case
  proof (cases "startOff < length (data buffer)")
    case False
    then show ?thesis
      by (subst parseDomainName_c_loop.simps) (simp add: idx_def)
  next
    case True
    then have "data buffer ! startOff \<in> set (data buffer)" by simp
    with assms have ne: "data buffer ! startOff \<noteq> 192" by metis
    have ne': "unat (data buffer ! startOff) \<noteq> 192"
    proof
      assume "unat (data buffer ! startOff) = 192"
      then have "(of_nat (unat (data buffer ! startOff)) :: byte) = of_nat 192" by simp
      with ne show False by simp
    qed
    have IH: "\<exists>r. parseDomainName_c_loop buffer l (startOff + (unat (data buffer ! startOff) + 1)) = Some r" for l
      using True by (intro less) simp
    show ?thesis
      using True ne' IH
      by (subst parseDomainName_c_loop.simps) (auto simp: idx_def split: res.splits)
  qed
qed

lemma parseDomainName_c_follows_pointer:
  assumes "idx buffer offset = Ret 192" and "idx buffer (offset + 1) = Ret p"
  shows "parseDomainName_c buffer offset =
     (case parseDomainName_c buffer (unat p) of None \<Rightarrow> None
      | Some Panic \<Rightarrow> Some Panic
      | Some (Ret (name, k)) \<Rightarrow> Some (Ret (name, 2)))"
proof -
  have "parseDomainName_c_loop buffer [] offset =
     Option.bind (parseDomainName_c_loop buffer [] (unat p))
       (\<lambda>r. case r of Panic \<Rightarrow> Some Panic
             | Ret (label, e) \<Rightarrow> Some (Ret ([] @ label, offset + 2)))"
    using assms by (subst parseDomainName_c_loop.simps) simp
  then show ?thesis
    by (simp add: parseDomainName_c_def split: option.splits res.splits prod.splits)
qed

text \<open>
  Claim C3 (amended). \<^verbatim>\<open>parseDomainName\<close> returns a result or panics, for every offset,
  on every buffer none of whose \<^verbatim>\<open>len\<close> bytes is the pointer octet 192. A name that
  starts with the octet 192 is decoded as the name at the offset its second octet
  gives, whatever that offset is, and 2 bytes are consumed: the outcome is the outcome
  of the decode at the target, so it returns when that one does, panics when that one
  does, and never returns when that one never does. Nothing rejects a target at or
  after the pointer and nothing counts the hops.
\<close>

theorem parseDomainName_c_unchecked_pointers:
  "(192 \<notin> set (data buffer) \<longrightarrow> (\<exists>r. parseDomainName_c buffer offset = Some r))
   \<and> (\<forall>p. idx buffer offset = Ret 192 \<and> idx buffer (offset + 1) = Ret p \<longrightarrow>
         parseDomainName_c buffer offset =
           (case parseDomainName_c buffer (unat p) of None \<Rightarrow> None
            | Some Panic \<Rightarrow> Some Panic
            | Some (Ret (name, k)) \<Rightarrow> Some (Ret (name, 2))))"
proof (intro conjI allI impI)
  assume a: "192 \<notin> set (data buffer)"
  from parseDomainName_c_loop_returns [OF a]
  obtain r where "parseDomainName_c_loop buffer [] offset = Some r" by blast
  then show "\<exists>r. parseDomainName_c buffer offset = Some r"
    by (cases r) (auto simp: parseDomainName_c_def)
next
  fix p
  assume "idx buffer offset = Ret 192 \<and> idx buffer (offset + 1) = Ret p"
  then show "parseDomainName_c buffer offset =
           (case parseDomainName_c buffer (unat p) of None \<Rightarrow> None
            | Some Panic \<Rightarrow> Some Panic
            | Some (Ret (name, k)) \<Rightarrow> Some (Ret (name, 2)))"
    using parseDomainName_c_follows_pointer [of buffer offset p] by simp
qed

theorem parseDomainName_c_unchecked_pointers_witness:
  "192 \<notin> set (data (full [3, 119, 119, 119, 3, 99, 111, 109, 0]))
   \<and> (\<exists>r. parseDomainName_c (full [3, 119, 119, 119, 3, 99, 111, 109, 0]) 0 = Some r)
   \<and> idx (full [7, 0, 192, 4, 1, 97]) 2 = Ret 192
   \<and> idx (full [7, 0, 192, 4, 1, 97]) (2 + 1) = Ret 4
   \<and> parseDomainName_c (full [7, 0, 192, 4, 1, 97]) (unat (4 :: byte)) = Some (Ret (str ''a'', 3))
   \<and> parseDomainName_c (full [7, 0, 192, 4, 1, 97]) 2 = Some (Ret (str ''a'', 2))"
proof -
  let ?b = "full [3, 119, 119, 119, 3, 99, 111, 109, 0]"
  let ?f = "full [7, 0, 192, 4, 1, 97]"
  have a: "192 \<notin> set (data ?b)" by (simp add: full_def)
  have r: "\<exists>r. parseDomainName_c ?b 0 = Some r"
    using parseDomainName_c_unchecked_pointers [of ?b 0] a by blast
  have i: "idx ?f 2 = Ret 192" "idx ?f (2 + 1) = Ret 4"
    by (simp_all add: eval_defs)
  have t: "parseDomainName_c ?f (unat (4 :: byte)) = Some (Ret (str ''a'', 3))"
    by (simp add: eval_defs eval_parser_c str_def)
  have "parseDomainName_c ?f 2 =
           (case parseDomainName_c ?f (unat (4 :: byte)) of None \<Rightarrow> None
            | Some Panic \<Rightarrow> Some Panic
            | Some (Ret (name, k)) \<Rightarrow> Some (Ret (name, 2)))"
    using parseDomainName_c_unchecked_pointers [of ?f 2] i by blast
  then have "parseDomainName_c ?f 2 = Some (Ret (str ''a'', 2))"
    unfolding t by simp
  with a r i t show ?thesis by (intro conjI)
qed

text \<open>
  Claim C4, at its two examples, in the second parser file. The claim says that
  \<^verbatim>\<open>[3,'w','w','w',3,'c','o','m',0]\<close> decodes to \<^verbatim>\<open>"www.com"\<close> consuming 9 bytes and
  that \<^verbatim>\<open>[0]\<close> decodes to the empty name consuming 1 byte. The code panics on the first
  (the test \<^verbatim>\<open>buffer[len] == 0\<close> reads \<^verbatim>\<open>buffer[3]\<close> and \<^verbatim>\<open>buffer[0]\<close>, never the
  terminating octet, and the cursor leaves the buffer) and reports 2 consumed bytes on
  the second. The \<^verbatim>\<open>parseDomainName\<close> of parser.go decodes both as the claim says
  (lemma \<open>parseDomainName_plain_labels\<close> below).
\<close>

theorem parseDomainName_c_plain_labels_panic:
  "parseDomainName_c (full [3, 119, 119, 119, 3, 99, 111, 109, 0]) 0 = Some Panic
   \<and> parseDomainName_c (full [0]) 0 = Some (Ret ([], 2))"
  by (simp add: eval_defs eval_parser_c str_def)

section \<open>Names in parser.go\<close>

lemma holds_at_nth:
  assumes "holds_at buffer offset bs" and "k < length bs"
  shows "data buffer ! (offset + k) = bs ! k"
proof -
  from assms have le: "offset + length bs \<le> length (data buffer)"
    and eq: "take (length bs) (drop offset (data buffer)) = bs"
    by (simp_all add: holds_at_def)
  have "take (length bs) (drop offset (data buffer)) ! k = drop offset (data buffer) ! k"
    using assms(2) by simp
  also have "\<dots> = data buffer ! (offset + k)"
    using le assms(2) by simp
  finally show ?thesis unfolding eq by simp
qed

lemma holds_at_append:
  assumes "holds_at buffer offset (xs @ ys)"
  shows "holds_at buffer offset xs" and "holds_at buffer (offset + length xs) ys"
proof -
  from assms have le: "offset + length xs + length ys \<le> length (data buffer)"
    and eq: "take (length xs + length ys) (drop offset (data buffer)) = xs @ ys"
    by (simp_all add: holds_at_def)
  have "take (length xs) (take (length xs + length ys) (drop offset (data buffer))) = xs"
    unfolding eq by simp
  then have a: "take (length xs) (drop offset (data buffer)) = xs"
    by (simp add: min_def)
  have "drop (length xs) (take (length xs + length ys) (drop offset (data buffer))) = ys"
    unfolding eq by simp
  then have b: "take (length ys) (drop (offset + length xs) (data buffer)) = ys"
    by (simp add: drop_take add.commute)
  from a le show "holds_at buffer offset xs" by (simp add: holds_at_def)
  from b le show "holds_at buffer (offset + length xs) ys" by (simp add: holds_at_def)
qed

lemma reslice_label:
  assumes "holds_at buffer offset l"
  shows "\<exists>t. reslice buffer offset (offset + length l) = Ret t \<and> data t = l"
proof -
  from assms have le: "offset + length l \<le> length (data buffer)"
    and eq: "take (length l) (drop offset (data buffer)) = l"
    by (simp_all add: holds_at_def)
  have "take (length l) (drop offset (backing buffer)) = take (length l) (drop offset (data buffer))"
    using le by (simp add: backing_def)
  with eq le len_le_cap [of buffer] show ?thesis by (simp add: reslice_def)
qed

lemma parseDomainName_loop_wire:
  assumes "\<forall>l \<in> set ls. 1 \<le> length l \<and> length l \<le> 255"
    and "holds_at buffer startOff (wire ls)"
  shows "parseDomainName_loop buffer labels startOff = Ret (labels @ ls, startOff + length (wire ls))"
  using assms
proof (induction ls arbitrary: labels startOff)
  case Nil
  then have "startOff < length (data buffer)" "data buffer ! startOff = 0"
    using holds_at_nth [of buffer startOff "[0]" 0] by (simp_all add: holds_at_def)
  then show ?case
    by (subst parseDomainName_loop.simps) (simp add: idx_def)
next
  case (Cons l ls)
  let ?n = "length l"
  from Cons.prems(1) have n: "1 \<le> ?n" "?n \<le> 255" by simp_all
  have u: "unat (of_nat ?n :: byte) = ?n" using n by (simp add: unat_of_nat)
  from Cons.prems(2) have h: "holds_at buffer startOff ([of_nat ?n] @ l @ wire ls)" by simp
  have h0: "holds_at buffer startOff [of_nat ?n]" using holds_at_append(1) [OF h] .
  have h1: "holds_at buffer (startOff + 1) (l @ wire ls)" using holds_at_append(2) [OF h] by simp
  have hl: "holds_at buffer (startOff + 1) l" using holds_at_append(1) [OF h1] .
  have hr: "holds_at buffer (startOff + 1 + ?n) (wire ls)" using holds_at_append(2) [OF h1] .
  from h0 have i: "startOff < length (data buffer)" "data buffer ! startOff = of_nat ?n"
    using holds_at_nth [of buffer startOff "[of_nat ?n]" 0] by (simp_all add: holds_at_def)
  from reslice_label [OF hl] obtain t where
    t: "reslice buffer (startOff + 1) (startOff + 1 + ?n) = Ret t" "data t = l" by blast
  have IH: "parseDomainName_loop buffer (labels @ [l]) (startOff + 1 + ?n)
      = Ret ((labels @ [l]) @ ls, startOff + 1 + ?n + length (wire ls))"
    using Cons.prems(1) hr by (intro Cons.IH) simp_all
  from n have "l \<noteq> []" by auto
  then show ?case
    using i u n t IH
    by (subst parseDomainName_loop.simps) (simp add: idx_def)
qed

lemma length_wire: "length (wire ls) = sum_list (map (\<lambda>l. 1 + length l) ls) + 1"
  by (induction ls) simp_all

lemma length_Join:
  "length (Join ls sep) = sum_list (map length ls) + (length ls - 1) * length sep"
  by (induction ls sep rule: Join.induct) simp_all

text \<open>
  In parser.go the decoder of plain labels does what the wire format says: a sequence
  of labels with length octets from 1 to 255, lying in the buffer and ended by a zero
  octet, decodes to the labels joined with a dot, and the bytes consumed are those of
  the encoding.
\<close>

lemma parseDomainName_plain_labels:
  assumes "\<forall>l \<in> set ls. 1 \<le> length l \<and> length l \<le> 255"
    and "holds_at buffer offset (wire ls)"
  shows "parseDomainName buffer offset = Ret (Join ls (str ''.''), length (wire ls))"
  using parseDomainName_loop_wire [OF assms, of "[]"]
  by (simp add: parseDomainName_def)

text \<open>
  Claim C8 (amended). \<^verbatim>\<open>parseDomainName\<close> of parser.go checks no length: for every
  buffer that holds at the offset a sequence of labels, each of 1 to 255 bytes, ended by
  a zero octet, it returns the labels joined with a dot, however long that name is. The
  length of the name is the sum of the label lengths plus one dot between two labels,
  and the bytes consumed are one more than the sum over the labels of one plus the
  label's length.
\<close>

theorem parseDomainName_no_length_limit:
  assumes "\<forall>l \<in> set ls. 1 \<le> length l \<and> length l \<le> 255"
    and "holds_at buffer offset (wire ls)"
  shows "parseDomainName buffer offset = Ret (Join ls (str ''.''), length (wire ls))
     \<and> length (Join ls (str ''.'')) = sum_list (map length ls) + (length ls - 1)
     \<and> length (wire ls) = sum_list (map (\<lambda>l. 1 + length l) ls) + 1"
  using parseDomainName_plain_labels [OF assms] length_wire [of ls]
    length_Join [of ls "str ''.''"]
  by (simp add: str_def)

theorem parseDomainName_no_length_limit_witness:
  "1 \<le> length (str ''www'') \<and> length (str ''www'') \<le> 255
   \<and> 1 \<le> length (str ''com'') \<and> length (str ''com'') \<le> 255
   \<and> holds_at (full [3, 119, 119, 119, 3, 99, 111, 109, 0]) 0 (wire [str ''www'', str ''com''])
   \<and> parseDomainName (full [3, 119, 119, 119, 3, 99, 111, 109, 0]) 0 = Ret (str ''www.com'', 9)"
proof -
  have a: "\<forall>l \<in> set [str ''www'', str ''com'']. 1 \<le> length l \<and> length l \<le> 255"
    by (simp add: str_def)
  have b: "holds_at (full [3, 119, 119, 119, 3, 99, 111, 109, 0]) 0 (wire [str ''www'', str ''com''])"
    by (simp add: holds_at_def full_def str_def)
  from parseDomainName_no_length_limit [OF a b] a b show ?thesis
    by (simp add: str_def)
qed

text \<open>
  Claim C8 as stated fails, in both files. In parser.go three labels of 100 bytes decode
  to a name of 302 octets. In the second file a label of 200 bytes followed by one of
  100 bytes (with a zero byte at index 100, which the end-of-name test of that file
  reads) decodes to a name of 301 octets. Neither is rejected.
\<close>

theorem parseDomainName_long_name_counterexample:
  "parseDomainName
     (full (100 # replicate 100 97 @ 100 # replicate 100 97 @ 100 # replicate 100 97 @ [0])) 0
   = Ret (replicate 100 97 @ str ''.'' @ replicate 100 97 @ str ''.'' @ replicate 100 97, 304)
   \<and> length (replicate 100 (97 :: byte) @ str ''.'' @ replicate 100 97 @ str ''.''
              @ replicate 100 97) = 302
   \<and> parseDomainName_c
       (full (200 # replicate 99 97 @ 0 # replicate 100 97 @ 100 # replicate 100 97)) 0
     = Some (Ret (replicate 99 97 @ 0 # replicate 100 97 @ str ''.'' @ replicate 100 97, 303))
   \<and> length (replicate 99 (97 :: byte) @ 0 # replicate 100 97 @ str ''.'' @ replicate 100 97)
     = 301"
proof -
  let ?l = "replicate 100 (97 :: byte)"
  have a: "\<forall>l \<in> set [?l, ?l, ?l]. 1 \<le> length l \<and> length l \<le> 255" by simp
  have w: "wire [?l, ?l, ?l] = 100 # ?l @ 100 # ?l @ 100 # ?l @ [0]" by simp
  have b: "holds_at (full (100 # ?l @ 100 # ?l @ 100 # ?l @ [0])) 0 (wire [?l, ?l, ?l])"
    unfolding w by (simp add: holds_at_def full_def)
  have p: "parseDomainName (full (100 # ?l @ 100 # ?l @ 100 # ?l @ [0])) 0
      = Ret (?l @ str ''.'' @ ?l @ str ''.'' @ ?l, 304)"
    using parseDomainName_plain_labels [OF a b] unfolding w by (simp add: str_def)
  have c: "parseDomainName_c (full (200 # replicate 99 97 @ 0 # ?l @ 100 # ?l)) 0
      = Some (Ret (replicate 99 97 @ 0 # ?l @ str ''.'' @ ?l, 303))"
    by (simp add: eval_defs eval_parser_c str_def nth_append nth_Cons')
  from p c show ?thesis by (simp add: str_def)
qed

section \<open>Resource records\<close>

lemma reslice_RetD:
  assumes "reslice s lo hi = Ret t"
  shows "lo \<le> hi" "hi \<le> cap s" "data t = take (hi - lo) (drop lo (backing s))"
    "length (data t) = hi - lo"
  using assms by (auto simp: reslice_def cap_def split: if_splits)

lemma parseResource_RetD:
  assumes "parseResource buffer offset = Ret (r, off')"
  shows "\<exists>k. parseDomainName buffer offset = Ret (RName r, k)
     \<and> Uint16_at buffer (offset + k) = Ret (RType r)
     \<and> Uint16_at buffer (offset + k + 2) = Ret (RClass r)
     \<and> Uint32_at buffer (offset + k + 4) = Ret (RTtl r)
     \<and> Uint16_at buffer (offset + k + 8) = Ret (RDlength r)
     \<and> off' = offset + k + 10 + unat (RDlength r)
     \<and> off' \<le> cap buffer
     \<and> RData r = take (unat (RDlength r)) (drop (offset + k + 10) (backing buffer))
     \<and> length (RData r) = unat (RDlength r)"
proof -
  from assms obtain rname k rtype rclass rttl rdlen rddata where
    n: "parseDomainName buffer offset = Ret (rname, k)"
    and f: "Uint16_at buffer (offset + k) = Ret rtype"
      "Uint16_at buffer (offset + k + 2) = Ret rclass"
      "Uint32_at buffer (offset + k + 2 + 2) = Ret rttl"
      "Uint16_at buffer (offset + k + 2 + 2 + 4) = Ret rdlen"
    and d: "reslice buffer (offset + k + 2 + 2 + 4 + 2) (offset + k + 2 + 2 + 4 + 2 + unat rdlen)
       = Ret rddata"
    and r: "r = \<lparr>RName = rname, RType = rtype, RClass = rclass, RTtl = rttl,
                RDlength = rdlen, RData = data rddata\<rparr>"
       "off' = offset + k + 2 + 2 + 4 + 2 + unat rdlen"
    by (auto simp: parseResource_def split: res.splits prod.splits)
  have e: "offset + k + 2 + 2 = offset + k + 4" "offset + k + 4 + 4 = offset + k + 8"
    "offset + k + 8 + 2 = offset + k + 10" by simp_all
  from reslice_RetD [OF d [unfolded e]] have D: "offset + k + 10 + unat rdlen \<le> cap buffer"
    "data rddata = take (unat rdlen) (drop (offset + k + 10) (backing buffer))"
    "length (data rddata) = unat rdlen"
    by simp_all
  have sel: "RName r = rname" "RType r = rtype" "RClass r = rclass" "RTtl r = rttl"
    "RDlength r = rdlen" "RData r = data rddata"
    using r(1) by simp_all
  show ?thesis
    unfolding sel using n f [unfolded e] r(2) [unfolded e] D by blast
qed

lemma parseResource_truncated:
  assumes "parseDomainName buffer offset = Ret (nm, k)"
    and "Uint16_at buffer (offset + k + 8) = Ret rdlen"
    and "cap buffer < offset + k + 10 + unat rdlen"
  shows "parseResource buffer offset = Panic"
proof -
  have "reslice buffer (offset + k + 2 + 2 + 4 + 2) (offset + k + 2 + 2 + 4 + 2 + unat rdlen) = Panic"
    using assms(3) by (simp add: reslice_def)
  moreover have "offset + k + 2 + 2 + 4 = offset + k + 8" by simp
  then have "Uint16_at buffer (offset + k + 2 + 2 + 4) = Ret rdlen"
    using assms(2) by (simp only:)
  ultimately show ?thesis
    using assms(1) by (simp add: parseResource_def split: res.splits)
qed

lemma parseResource_c_RetD:
  assumes "parseResource_c buffer offset = Some (Ret (r, off'))"
  shows "\<exists>k. parseDomainName_c buffer offset = Some (Ret (RName r, k))
     \<and> Uint16_at buffer (offset + k) = Ret (RType r)
     \<and> Uint16_at buffer (offset + k + 2) = Ret (RClass r)
     \<and> Uint32_at buffer (offset + k + 4) = Ret (RTtl r)
     \<and> Uint16_at buffer (offset + k + 8) = Ret (RDlength r)
     \<and> off' = offset + k + 10 + unat (RDlength r)
     \<and> off' \<le> cap buffer
     \<and> (if RType r = 2 \<and> RClass r = 1
         then \<exists>rdataBuffer e. reslice buffer (offset + k + 10) off' = Ret rdataBuffer
                \<and> parseDomainName_c rdataBuffer 0 = Some (Ret (RData r, e))
         else RData r = take (unat (RDlength r)) (drop (offset + k + 10) (backing buffer))
              \<and> length (RData r) = unat (RDlength r))"
proof -
  from assms obtain rname k rtype rclass rttl rdlen where
    n: "parseDomainName_c buffer offset = Some (Ret (rname, k))"
    and f: "Uint16_at buffer (offset + k) = Ret rtype"
      "Uint16_at buffer (offset + k + 2) = Ret rclass"
      "Uint32_at buffer (offset + k + 2 + 2) = Ret rttl"
      "Uint16_at buffer (offset + k + 2 + 2 + 4) = Ret rdlen"
    and rest: "(if rtype = 2 \<and> rclass = 1
      then (case reslice buffer (offset + k + 2 + 2 + 4 + 2)
                   (offset + k + 2 + 2 + 4 + 2 + unat rdlen) of
              Panic \<Rightarrow> Some Panic
            | Ret rdataBuffer \<Rightarrow>
               (case parseDomainName_c rdataBuffer 0 of None \<Rightarrow> None
                | Some Panic \<Rightarrow> Some Panic
                | Some (Ret (domainName, e)) \<Rightarrow>
                    Some (Ret (\<lparr>RName = rname, RType = rtype, RClass = rclass, RTtl = rttl,
                                RDlength = rdlen, RData = domainName\<rparr>,
                               offset + k + 2 + 2 + 4 + 2 + unat rdlen))))
      else (case reslice buffer (offset + k + 2 + 2 + 4 + 2)
                   (offset + k + 2 + 2 + 4 + 2 + unat rdlen) of
              Panic \<Rightarrow> Some Panic
            | Ret rddata \<Rightarrow>
                Some (Ret (\<lparr>RName = rname, RType = rtype, RClass = rclass, RTtl = rttl,
                            RDlength = rdlen, RData = data rddata\<rparr>,
                           offset + k + 2 + 2 + 4 + 2 + unat rdlen)))) = Some (Ret (r, off'))"
    by (auto simp: parseResource_c_def split: res.splits prod.splits option.splits)
  obtain sl where d: "reslice buffer (offset + k + 2 + 2 + 4 + 2)
      (offset + k + 2 + 2 + 4 + 2 + unat rdlen) = Ret sl"
    using rest by (cases "reslice buffer (offset + k + 2 + 2 + 4 + 2)
      (offset + k + 2 + 2 + 4 + 2 + unat rdlen)") (auto split: if_splits)
  have e: "offset + k + 2 + 2 = offset + k + 4" "offset + k + 4 + 4 = offset + k + 8"
    "offset + k + 8 + 2 = offset + k + 10" by simp_all
  from reslice_RetD [OF d [unfolded e]] have D: "offset + k + 10 + unat rdlen \<le> cap buffer"
    "data sl = take (unat rdlen) (drop (offset + k + 10) (backing buffer))"
    "length (data sl) = unat rdlen"
    by simp_all
  show ?thesis
  proof (cases "rtype = 2 \<and> rclass = 1")
    case True
    with rest d obtain domainName e' where p: "parseDomainName_c sl 0 = Some (Ret (domainName, e'))"
      and r: "r = \<lparr>RName = rname, RType = rtype, RClass = rclass, RTtl = rttl,
                                RDlength = rdlen, RData = domainName\<rparr>"
      "off' = offset + k + 2 + 2 + 4 + 2 + unat rdlen"
      by (auto split: res.splits prod.splits option.splits)
    have sel: "RName r = rname" "RType r = rtype" "RClass r = rclass" "RTtl r = rttl"
      "RDlength r = rdlen" "RData r = domainName"
      using r(1) by simp_all
    have c: "RType r = 2 \<and> RClass r = 1" using True sel by simp
    have "\<exists>rdataBuffer e. reslice buffer (offset + k + 10) off' = Ret rdataBuffer
                \<and> parseDomainName_c rdataBuffer 0 = Some (Ret (RData r, e))"
      unfolding sel r(2) [unfolded e] using d [unfolded e] p by blast
    then show ?thesis
      unfolding if_P [OF c]
      using n f [unfolded e] r(2) [unfolded e] D(1) unfolding sel [symmetric] by blast
  next
    case False
    with rest d have r:
      "r = \<lparr>RName = rname, RType = rtype, RClass = rclass, RTtl = rttl,
                                RDlength = rdlen, RData = data sl\<rparr>"
      "off' = offset + k + 2 + 2 + 4 + 2 + unat rdlen"
      by (auto split: res.splits prod.splits option.splits)
    have sel: "RName r = rname" "RType r = rtype" "RClass r = rclass" "RTtl r = rttl"
      "RDlength r = rdlen" "RData r = data sl"
      using r(1) by simp_all
    have c: "\<not> (RType r = 2 \<and> RClass r = 1)" using False sel by simp
    show ?thesis
      unfolding if_not_P [OF c]
      using n f [unfolded e] r(2) [unfolded e] D unfolding sel [symmetric] by blast
  qed
qed

lemma parseResource_c_truncated:
  assumes "parseDomainName_c buffer offset = Some (Ret (nm, k))"
    and "Uint16_at buffer (offset + k + 8) = Ret rdlen"
    and "cap buffer < offset + k + 10 + unat rdlen"
  shows "parseResource_c buffer offset = Some Panic"
proof -
  have "reslice buffer (offset + k + 2 + 2 + 4 + 2) (offset + k + 2 + 2 + 4 + 2 + unat rdlen) = Panic"
    using assms(3) by (simp add: reslice_def)
  moreover have "offset + k + 2 + 2 + 4 = offset + k + 8" by simp
  then have "Uint16_at buffer (offset + k + 2 + 2 + 4) = Ret rdlen"
    using assms(2) by (simp only:)
  ultimately show ?thesis
    using assms(1) by (simp add: parseResource_c_def split: res.splits)
qed

text \<open>
  Claim C7 (amended). Whenever \<^verbatim>\<open>parseResource\<close> returns a record, the record's name is
  the name decoded at the offset, its type, class, TTL and RDLENGTH are the big-endian
  fields that follow the name, the new cursor is the position after the name, these
  ten bytes and RDLENGTH more, and it lies within the buffer's capacity. In parser.go
  the RDATA returned is, for every type and class, the RDLENGTH bytes at the cursor
  reached after the RDLENGTH field. In the second parser file that holds for every type
  and class except type 2 with class 1 (NS, IN), where the RDATA returned is the name
  that \<^verbatim>\<open>parseDomainName\<close> decodes from the RDATA slice at offset 0 of that slice.
  When the RDLENGTH bytes do not lie within the capacity of the buffer, both versions
  panic; neither returns an error.
\<close>

theorem parseResource_rdata:
  "(\<forall>r off'. parseResource buffer offset = Ret (r, off') \<longrightarrow>
      (\<exists>k. parseDomainName buffer offset = Ret (RName r, k)
         \<and> Uint16_at buffer (offset + k) = Ret (RType r)
         \<and> Uint16_at buffer (offset + k + 2) = Ret (RClass r)
         \<and> Uint32_at buffer (offset + k + 4) = Ret (RTtl r)
         \<and> Uint16_at buffer (offset + k + 8) = Ret (RDlength r)
         \<and> off' = offset + k + 10 + unat (RDlength r)
         \<and> off' \<le> cap buffer
         \<and> RData r = take (unat (RDlength r)) (drop (offset + k + 10) (backing buffer))
         \<and> length (RData r) = unat (RDlength r)))
   \<and> (\<forall>nm k rdlen. parseDomainName buffer offset = Ret (nm, k)
         \<and> Uint16_at buffer (offset + k + 8) = Ret rdlen
         \<and> cap buffer < offset + k + 10 + unat rdlen
         \<longrightarrow> parseResource buffer offset = Panic)
   \<and> (\<forall>r off'. parseResource_c buffer offset = Some (Ret (r, off')) \<longrightarrow>
      (\<exists>k. parseDomainName_c buffer offset = Some (Ret (RName r, k))
         \<and> Uint16_at buffer (offset + k) = Ret (RType r)
         \<and> Uint16_at buffer (offset + k + 2) = Ret (RClass r)
         \<and> Uint32_at buffer (offset + k + 4) = Ret (RTtl r)
         \<and> Uint16_at buffer (offset + k + 8) = Ret (RDlength r)
         \<and> off' = offset + k + 10 + unat (RDlength r)
         \<and> off' \<le> cap buffer
         \<and> (if RType r = 2 \<and> RClass r = 1
             then \<exists>rdataBuffer e. reslice buffer (offset + k + 10) off' = Ret rdataBuffer
                    \<and> parseDomainName_c rdataBuffer 0 = Some (Ret (RData r, e))
             else RData r = take (unat (RDlength r)) (drop (offset + k + 10) (backing buffer))
                  \<and> length (RData r) = unat (RDlength r))))
   \<and> (\<forall>nm k rdlen. parseDomainName_c buffer offset = Some (Ret (nm, k))
         \<and> Uint16_at buffer (offset + k + 8) = Ret rdlen
         \<and> cap buffer < offset + k + 10 + unat rdlen
         \<longrightarrow> parseResource_c buffer offset = Some Panic)"
proof (intro conjI allI impI)
  fix r off'
  assume "parseResource buffer offset = Ret (r, off')"
  then show "\<exists>k. parseDomainName buffer offset = Ret (RName r, k)
         \<and> Uint16_at buffer (offset + k) = Ret (RType r)
         \<and> Uint16_at buffer (offset + k + 2) = Ret (RClass r)
         \<and> Uint32_at buffer (offset + k + 4) = Ret (RTtl r)
         \<and> Uint16_at buffer (offset + k + 8) = Ret (RDlength r)
         \<and> off' = offset + k + 10 + unat (RDlength r)
         \<and> off' \<le> cap buffer
         \<and> RData r = take (unat (RDlength r)) (drop (offset + k + 10) (backing buffer))
         \<and> length (RData r) = unat (RDlength r)"
    by (rule parseResource_RetD)
next
  fix nm k rdlen
  assume "parseDomainName buffer offset = Ret (nm, k)
         \<and> Uint16_at buffer (offset + k + 8) = Ret rdlen
         \<and> cap buffer < offset + k + 10 + unat rdlen"
  then show "parseResource buffer offset = Panic"
    using parseResource_truncated [of buffer offset nm k rdlen] by simp
next
  fix r off'
  assume "parseResource_c buffer offset = Some (Ret (r, off'))"
  then show "\<exists>k. parseDomainName_c buffer offset = Some (Ret (RName r, k))
         \<and> Uint16_at buffer (offset + k) = Ret (RType r)
         \<and> Uint16_at buffer (offset + k + 2) = Ret (RClass r)
         \<and> Uint32_at buffer (offset + k + 4) = Ret (RTtl r)
         \<and> Uint16_at buffer (offset + k + 8) = Ret (RDlength r)
         \<and> off' = offset + k + 10 + unat (RDlength r)
         \<and> off' \<le> cap buffer
         \<and> (if RType r = 2 \<and> RClass r = 1
             then \<exists>rdataBuffer e. reslice buffer (offset + k + 10) off' = Ret rdataBuffer
                    \<and> parseDomainName_c rdataBuffer 0 = Some (Ret (RData r, e))
             else RData r = take (unat (RDlength r)) (drop (offset + k + 10) (backing buffer))
                  \<and> length (RData r) = unat (RDlength r))"
    by (rule parseResource_c_RetD)
next
  fix nm k rdlen
  assume "parseDomainName_c buffer offset = Some (Ret (nm, k))
         \<and> Uint16_at buffer (offset + k + 8) = Ret rdlen
         \<and> cap buffer < offset + k + 10 + unat rdlen"
  then show "parseResource_c buffer offset = Some Panic"
    using parseResource_c_truncated [of buffer offset nm k rdlen] by simp
qed

theorem parseResource_rdata_witness:
  "parseResource (full [0, 0, 1, 0, 1, 0, 0, 0, 60, 0, 4, 1, 2, 3, 4]) 0
     = Ret (\<lparr>RName = [], RType = 1, RClass = 1, RTtl = 60, RDlength = 4,
             RData = [1, 2, 3, 4]\<rparr>, 15)
   \<and> (\<exists>k. parseDomainName (full [0, 0, 1, 0, 1, 0, 0, 0, 60, 0, 4, 1, 2, 3, 4]) 0 = Ret ([], k)
         \<and> 15 = 0 + k + 10 + unat (4 :: 16 word)
         \<and> [1, 2, 3, 4] = take (unat (4 :: 16 word))
              (drop (0 + k + 10) (backing (full [0, 0, 1, 0, 1, 0, 0, 0, 60, 0, 4, 1, 2, 3, 4]))))
   \<and> parseDomainName (full [0, 0, 1, 0, 1, 0, 0, 0, 60, 0, 4, 1, 2]) 0 = Ret ([], 1)
   \<and> Uint16_at (full [0, 0, 1, 0, 1, 0, 0, 0, 60, 0, 4, 1, 2]) (0 + 1 + 8) = Ret 4
   \<and> cap (full [0, 0, 1, 0, 1, 0, 0, 0, 60, 0, 4, 1, 2]) < 0 + 1 + 10 + unat (4 :: 16 word)
   \<and> parseResource (full [0, 0, 1, 0, 1, 0, 0, 0, 60, 0, 4, 1, 2]) 0 = Panic
   \<and> parseResource_c (full [0, 9, 0, 2, 0, 1, 0, 0, 0, 60, 0, 2, 0, 9]) 0
     = Some (Ret (\<lparr>RName = [], RType = 2, RClass = 1, RTtl = 60, RDlength = 2, RData = []\<rparr>, 14))
   \<and> (\<exists>k rdataBuffer e.
         reslice (full [0, 9, 0, 2, 0, 1, 0, 0, 0, 60, 0, 2, 0, 9]) (0 + k + 10) 14 = Ret rdataBuffer
         \<and> parseDomainName_c rdataBuffer 0 = Some (Ret ([], e)))
   \<and> parseDomainName_c (full [0, 9, 0, 1, 0, 1, 0, 0, 0, 60, 0, 4, 1, 2]) 0 = Some (Ret ([], 2))
   \<and> Uint16_at (full [0, 9, 0, 1, 0, 1, 0, 0, 0, 60, 0, 4, 1, 2]) (0 + 2 + 8) = Ret 4
   \<and> cap (full [0, 9, 0, 1, 0, 1, 0, 0, 0, 60, 0, 4, 1, 2]) < 0 + 2 + 10 + unat (4 :: 16 word)
   \<and> parseResource_c (full [0, 9, 0, 1, 0, 1, 0, 0, 0, 60, 0, 4, 1, 2]) 0 = Some Panic"
proof -
  let ?A = "full [0, 0, 1, 0, 1, 0, 0, 0, 60, 0, 4, 1, 2, 3, 4]"
  let ?B = "full [0, 0, 1, 0, 1, 0, 0, 0, 60, 0, 4, 1, 2]"
  let ?C = "full [0, 9, 0, 2, 0, 1, 0, 0, 0, 60, 0, 2, 0, 9]"
  let ?D = "full [0, 9, 0, 1, 0, 1, 0, 0, 0, 60, 0, 4, 1, 2]"
  let ?rA = "\<lparr>RName = [], RType = 1, RClass = 1, RTtl = 60, RDlength = 4, RData = [1, 2, 3, 4]\<rparr>"
  let ?rC = "\<lparr>RName = [], RType = 2, RClass = 1, RTtl = 60, RDlength = 2, RData = []\<rparr>"
  have a: "parseResource ?A 0 = Ret (?rA, 15)"
    by (simp add: eval_defs eval_parser)
  have b: "parseDomainName ?B 0 = Ret ([], 1)" "Uint16_at ?B (0 + 1 + 8) = Ret 4"
    "cap ?B < 0 + 1 + 10 + unat (4 :: 16 word)"
    by (simp_all add: eval_defs eval_parser)
  have c: "parseResource_c ?C 0 = Some (Ret (?rC, 14))"
    by (simp add: eval_defs eval_parser eval_parser_c)
  have d: "parseDomainName_c ?D 0 = Some (Ret ([], 2))" "Uint16_at ?D (0 + 2 + 8) = Ret 4"
    "cap ?D < 0 + 2 + 10 + unat (4 :: 16 word)"
    by (simp_all add: eval_defs eval_parser eval_parser_c)
  note T = parseResource_rdata
  have A0: "\<exists>k. parseDomainName ?A 0 = Ret (RName ?rA, k)
         \<and> Uint16_at ?A (0 + k) = Ret (RType ?rA)
         \<and> Uint16_at ?A (0 + k + 2) = Ret (RClass ?rA)
         \<and> Uint32_at ?A (0 + k + 4) = Ret (RTtl ?rA)
         \<and> Uint16_at ?A (0 + k + 8) = Ret (RDlength ?rA)
         \<and> 15 = 0 + k + 10 + unat (RDlength ?rA)
         \<and> 15 \<le> cap ?A
         \<and> RData ?rA = take (unat (RDlength ?rA)) (drop (0 + k + 10) (backing ?A))
         \<and> length (RData ?rA) = unat (RDlength ?rA)"
    by (rule T [of ?A 0, THEN conjunct1, rule_format, OF a])
  then obtain k where "parseDomainName ?A 0 = Ret (RName ?rA, k)"
    "15 = 0 + k + 10 + unat (RDlength ?rA)"
    "RData ?rA = take (unat (RDlength ?rA)) (drop (0 + k + 10) (backing ?A))"
    by blast
  then have "parseDomainName ?A 0 = Ret ([], k) \<and> 15 = 0 + k + 10 + unat (4 :: 16 word)
         \<and> [1, 2, 3, 4] = take (unat (4 :: 16 word)) (drop (0 + k + 10) (backing ?A))"
    by simp
  then have A: "\<exists>k. parseDomainName ?A 0 = Ret ([], k) \<and> 15 = 0 + k + 10 + unat (4 :: 16 word)
         \<and> [1, 2, 3, 4] = take (unat (4 :: 16 word)) (drop (0 + k + 10) (backing ?A))" ..
  have B: "parseResource ?B 0 = Panic"
    using T [of ?B 0, THEN conjunct2, THEN conjunct1, rule_format, of "[]" 1 4] b by blast
  have "\<exists>k. parseDomainName_c ?C 0 = Some (Ret (RName ?rC, k))
         \<and> Uint16_at ?C (0 + k) = Ret (RType ?rC)
         \<and> Uint16_at ?C (0 + k + 2) = Ret (RClass ?rC)
         \<and> Uint32_at ?C (0 + k + 4) = Ret (RTtl ?rC)
         \<and> Uint16_at ?C (0 + k + 8) = Ret (RDlength ?rC)
         \<and> 14 = 0 + k + 10 + unat (RDlength ?rC)
         \<and> 14 \<le> cap ?C
         \<and> (if RType ?rC = 2 \<and> RClass ?rC = 1
             then \<exists>rdataBuffer e. reslice ?C (0 + k + 10) 14 = Ret rdataBuffer
                    \<and> parseDomainName_c rdataBuffer 0 = Some (Ret (RData ?rC, e))
             else RData ?rC = take (unat (RDlength ?rC)) (drop (0 + k + 10) (backing ?C))
                  \<and> length (RData ?rC) = unat (RDlength ?rC))"
    by (rule T [of ?C 0, THEN conjunct2, THEN conjunct2, THEN conjunct1, rule_format, OF c])
  then obtain k' where "if RType ?rC = 2 \<and> RClass ?rC = 1
             then \<exists>rdataBuffer e. reslice ?C (0 + k' + 10) 14 = Ret rdataBuffer
                    \<and> parseDomainName_c rdataBuffer 0 = Some (Ret (RData ?rC, e))
             else RData ?rC = take (unat (RDlength ?rC)) (drop (0 + k' + 10) (backing ?C))
                  \<and> length (RData ?rC) = unat (RDlength ?rC)"
    by blast
  then have "\<exists>rdataBuffer e. reslice ?C (0 + k' + 10) 14 = Ret rdataBuffer
                    \<and> parseDomainName_c rdataBuffer 0 = Some (Ret ([], e))"
    by simp
  then have C: "\<exists>k rdataBuffer e. reslice ?C (0 + k + 10) 14 = Ret rdataBuffer
         \<and> parseDomainName_c rdataBuffer 0 = Some (Ret ([], e))" ..
  have D: "parseResource_c ?D 0 = Some Panic"
    using T [of ?D 0, THEN conjunct2, THEN conjunct2, THEN conjunct2, rule_format, of "[]" 2 4] d
    by blast
  from a b c d A B C D show ?thesis by (intro conjI)
qed

text \<open>
  Claim C7 as stated fails. A record whose RDLENGTH is 4 with 2 bytes left in the buffer
  makes \<^verbatim>\<open>parseResource\<close> panic, where the claim has a TruncatedRecord error. In the
  second parser file an NS record of class IN with the RDATA bytes 0 and 9 is returned
  with an empty RDATA, the name decoded from those bytes, where the claim has the two
  raw bytes.
\<close>

theorem parseResource_rdata_counterexample:
  "parseResource (full [0, 0, 1, 0, 1, 0, 0, 0, 60, 0, 4, 1, 2]) 0 = Panic
   \<and> parseResource_c (full [0, 9, 0, 2, 0, 1, 0, 0, 0, 60, 0, 2, 0, 9]) 0
     = Some (Ret (\<lparr>RName = [], RType = 2, RClass = 1, RTtl = 60, RDlength = 2, RData = []\<rparr>, 14))
   \<and> take 2 (drop 12 (backing (full [0, 9, 0, 2, 0, 1, 0, 0, 0, 60, 0, 2, 0, 9]))) = [0, 9]"
  by (simp add: eval_defs eval_parser eval_parser_c)

section \<open>Reads outside the buffer\<close>

lemma parseDomainName_Panic_past_len:
  assumes "length (data buffer) \<le> offset"
  shows "parseDomainName buffer offset = Panic"
proof -
  have "parseDomainName_loop buffer [] offset = Panic"
    using assms by (subst parseDomainName_loop.simps) (simp add: idx_def)
  then show ?thesis by (simp add: parseDomainName_def)
qed

lemma parseQuestion_Panic_iff:
  "parseQuestion buffer offset = Panic \<longleftrightarrow>
     (parseDomainName buffer offset = Panic
      \<or> (\<exists>nm k. parseDomainName buffer offset = Ret (nm, k) \<and> cap buffer < offset + k + 4))"
proof (cases "parseDomainName buffer offset")
  case Panic
  then show ?thesis by (simp add: parseQuestion_def)
next
  case (Ret x)
  obtain nm k where x: "x = (nm, k)" by (cases x)
  have e: "offset + k + 2 + 2 = offset + k + 4" by simp
  have "parseQuestion buffer offset = Panic \<longleftrightarrow>
      (Uint16_at buffer (offset + k) = Panic \<or> Uint16_at buffer (offset + k + 2) = Panic)"
    unfolding parseQuestion_def Ret x res.case prod.case by (auto split: res.splits)
  also have "\<dots> \<longleftrightarrow> cap buffer < offset + k + 4"
    unfolding Uint16_at_Panic_iff e by auto
  finally show ?thesis using Ret x by simp
qed

lemma parseResource_Panic_iff:
  "parseResource buffer offset = Panic \<longleftrightarrow>
     (parseDomainName buffer offset = Panic
      \<or> (\<exists>nm k. parseDomainName buffer offset = Ret (nm, k)
            \<and> (cap buffer < offset + k + 10
                \<or> (\<exists>rdlen. Uint16_at buffer (offset + k + 8) = Ret rdlen
                      \<and> cap buffer < offset + k + 10 + unat rdlen))))"
proof (cases "parseDomainName buffer offset")
  case Panic
  then show ?thesis by (simp add: parseResource_def)
next
  case (Ret x)
  obtain nm k where x: "x = (nm, k)" by (cases x)
  have e: "offset + k + 2 + 2 = offset + k + 4" "offset + k + 4 + 4 = offset + k + 8"
    "offset + k + 8 + 2 = offset + k + 10" by simp_all
  have "parseResource buffer offset = Panic \<longleftrightarrow>
      (Uint16_at buffer (offset + k) = Panic \<or> Uint16_at buffer (offset + k + 2) = Panic
       \<or> Uint32_at buffer (offset + k + 4) = Panic \<or> Uint16_at buffer (offset + k + 8) = Panic
       \<or> (\<exists>rdlen. Uint16_at buffer (offset + k + 8) = Ret rdlen
             \<and> reslice buffer (offset + k + 10) (offset + k + 10 + unat rdlen) = Panic))"
    unfolding parseResource_def Ret x res.case prod.case e by (auto split: res.splits)
  also have "\<dots> \<longleftrightarrow> (cap buffer < offset + k + 10
                \<or> (\<exists>rdlen. Uint16_at buffer (offset + k + 8) = Ret rdlen
                      \<and> cap buffer < offset + k + 10 + unat rdlen))"
    unfolding Uint16_at_Panic_iff Uint32_at_Panic_iff reslice_Panic_iff by auto
  finally show ?thesis using Ret x by simp
qed

lemma Read_error_is_short_header:
  assumes "snd (Read buffer n) = Ret (p, Some e)"
  shows "e = ShortHeader \<and> p = zero_Payload \<and> length (data buffer) < 12"
  using assms by (auto simp: Read_def split: if_splits res.splits prod.splits)

lemma Read_first_question_panics:
  assumes "0 \<le> n" "n \<le> int (length (data buffer))" "12 \<le> length (data buffer)"
    and "reslice buffer 0 12 = Ret hd12" "parseHeader hd12 = Ret h" "0 < QdCount h"
    and "parseQuestion buffer 12 = Panic"
  shows "snd (Read buffer n) = Panic"
proof -
  have q: "questions_loop buffer (QdCount h) 0 12 [] = Panic"
    using assms(6,7) by (subst questions_loop.simps) simp
  show ?thesis
    unfolding Read_def reslice_prefix [OF assms(1,2)]
    using assms(1,3,4,5) q by simp
qed

text \<open>
  Claim C1 (amended). The decoders of parser.go check no bound themselves and return no
  bounds error; a read outside the buffer is a run-time panic. \<^verbatim>\<open>parseDomainName\<close>
  panics when its offset is at or past \<^verbatim>\<open>len(buffer)\<close>. A 16-bit read panics exactly
  when its offset plus 2 exceeds the capacity of the buffer, a 32-bit read when its
  offset plus 4 does. \<^verbatim>\<open>parseQuestion\<close> panics exactly when the name decode panics or
  the four bytes after the name do not lie within the capacity; \<^verbatim>\<open>parseResource\<close>
  exactly when the name decode panics, or the ten bytes after the name or the RDLENGTH
  bytes after them do not lie within the capacity. A panic of the first question is a
  panic of \<^verbatim>\<open>Read\<close>. The only error \<^verbatim>\<open>Read\<close> returns is the short-header error, for a
  buffer shorter than 12 bytes.
\<close>

theorem decoders_panic_out_of_bounds:
  "(length (data buffer) \<le> offset \<longrightarrow> parseDomainName buffer offset = Panic)
   \<and> (Uint16_at buffer offset = Panic \<longleftrightarrow> cap buffer < offset + 2)
   \<and> (Uint32_at buffer offset = Panic \<longleftrightarrow> cap buffer < offset + 4)
   \<and> (parseQuestion buffer offset = Panic \<longleftrightarrow>
        (parseDomainName buffer offset = Panic
         \<or> (\<exists>nm k. parseDomainName buffer offset = Ret (nm, k) \<and> cap buffer < offset + k + 4)))
   \<and> (parseResource buffer offset = Panic \<longleftrightarrow>
        (parseDomainName buffer offset = Panic
         \<or> (\<exists>nm k. parseDomainName buffer offset = Ret (nm, k)
               \<and> (cap buffer < offset + k + 10
                   \<or> (\<exists>rdlen. Uint16_at buffer (offset + k + 8) = Ret rdlen
                         \<and> cap buffer < offset + k + 10 + unat rdlen)))))
   \<and> (\<forall>hd12 h. 0 \<le> n \<and> n \<le> int (length (data buffer)) \<and> 12 \<le> length (data buffer)
         \<and> reslice buffer 0 12 = Ret hd12 \<and> parseHeader hd12 = Ret h \<and> 0 < QdCount h
         \<and> parseQuestion buffer 12 = Panic
         \<longrightarrow> snd (Read buffer n) = Panic)
   \<and> (\<forall>p e. snd (Read buffer n) = Ret (p, Some e)
         \<longrightarrow> e = ShortHeader \<and> length (data buffer) < 12)"
proof (intro conjI allI impI)
  assume "length (data buffer) \<le> offset"
  then show "parseDomainName buffer offset = Panic" by (rule parseDomainName_Panic_past_len)
next
  show "Uint16_at buffer offset = Panic \<longleftrightarrow> cap buffer < offset + 2"
    by (rule Uint16_at_Panic_iff)
next
  show "Uint32_at buffer offset = Panic \<longleftrightarrow> cap buffer < offset + 4"
    by (rule Uint32_at_Panic_iff)
next
  show "parseQuestion buffer offset = Panic \<longleftrightarrow>
        (parseDomainName buffer offset = Panic
         \<or> (\<exists>nm k. parseDomainName buffer offset = Ret (nm, k) \<and> cap buffer < offset + k + 4))"
    by (rule parseQuestion_Panic_iff)
next
  show "parseResource buffer offset = Panic \<longleftrightarrow>
        (parseDomainName buffer offset = Panic
         \<or> (\<exists>nm k. parseDomainName buffer offset = Ret (nm, k)
               \<and> (cap buffer < offset + k + 10
                   \<or> (\<exists>rdlen. Uint16_at buffer (offset + k + 8) = Ret rdlen
                         \<and> cap buffer < offset + k + 10 + unat rdlen))))"
    by (rule parseResource_Panic_iff)
next
  fix hd12 h
  assume "0 \<le> n \<and> n \<le> int (length (data buffer)) \<and> 12 \<le> length (data buffer)
         \<and> reslice buffer 0 12 = Ret hd12 \<and> parseHeader hd12 = Ret h \<and> 0 < QdCount h
         \<and> parseQuestion buffer 12 = Panic"
  then show "snd (Read buffer n) = Panic"
    using Read_first_question_panics [of n buffer hd12 h] by simp
next
  fix p e
  assume "snd (Read buffer n) = Ret (p, Some e)"
  then show "e = ShortHeader" by (simp add: Read_error_is_short_header)
next
  fix p e
  assume "snd (Read buffer n) = Ret (p, Some e)"
  then show "length (data buffer) < 12" by (simp add: Read_error_is_short_header)
qed

theorem decoders_panic_out_of_bounds_witness:
  "length (data (full [0, 7, 1, 0, 0, 1, 0, 0, 0, 0, 0, 0])) \<le> 12
   \<and> parseDomainName (full [0, 7, 1, 0, 0, 1, 0, 0, 0, 0, 0, 0]) 12 = Panic
   \<and> cap (full [0, 7, 1, 0, 0, 1, 0, 0, 0, 0, 0, 0]) < 12 + 2
   \<and> Uint16_at (full [0, 7, 1, 0, 0, 1, 0, 0, 0, 0, 0, 0]) 12 = Panic
   \<and> Uint32_at (full [0, 7, 1, 0, 0, 1, 0, 0, 0, 0, 0, 0]) 12 = Panic
   \<and> parseQuestion (full [0, 7, 1, 0, 0, 1, 0, 0, 0, 0, 0, 0]) 12 = Panic
   \<and> parseResource (full [0, 7, 1, 0, 0, 1, 0, 0, 0, 0, 0, 0]) 12 = Panic
   \<and> snd (Read (full [0, 7, 1, 0, 0, 1, 0, 0, 0, 0, 0, 0]) 12) = Panic
   \<and> snd (Read (full [1, 2, 3]) 3) = Ret (zero_Payload, Some ShortHeader)
   \<and> length (data (full [1, 2, 3])) < 12"
proof -
  let ?X = "full [0, 7, 1, 0, 0, 1, 0, 0, 0, 0, 0, 0]"
  let ?h = "\<lparr>ID = 7, Flags = 256, QdCount = 1, AnCount = 0, NsCount = 0, ArCount = 0\<rparr>"
  note T = decoders_panic_out_of_bounds [of ?X 12 12]
  note U = decoders_panic_out_of_bounds [of "full [1, 2, 3]" 0 3]
  have l: "length (data ?X) \<le> 12" by (simp add: full_def)
  have c: "cap ?X < 12 + 2" "cap ?X < 12 + 4" by (simp_all add: eval_defs)
  have n: "parseDomainName ?X 12 = Panic" using T l by blast
  have u: "Uint16_at ?X 12 = Panic" "Uint32_at ?X 12 = Panic" using T c by blast+
  have q: "parseQuestion ?X 12 = Panic" "parseResource ?X 12 = Panic" using T n by blast+
  have h: "reslice ?X 0 12 = Ret ?X" "parseHeader ?X = Ret ?h" "0 < QdCount ?h"
    "(0::int) \<le> 12" "12 \<le> int (length (data ?X))" "12 \<le> length (data ?X)"
    by (simp_all add: eval_defs parseHeader_def)
  have r: "snd (Read ?X 12) = Panic"
    using T [THEN conjunct2, THEN conjunct2, THEN conjunct2, THEN conjunct2, THEN conjunct2,
        THEN conjunct1, rule_format, of ?X ?h] h q(1)
    by blast
  have s: "snd (Read (full [1, 2, 3]) 3) = Ret (zero_Payload, Some ShortHeader)"
    by (simp add: eval_defs eval_parser)
  have "length (data (full [1, 2, 3])) < 12"
    using U [THEN conjunct2, THEN conjunct2, THEN conjunct2, THEN conjunct2, THEN conjunct2,
        THEN conjunct2, rule_format, OF s] by simp
  with l c n u q r s show ?thesis by (intro conjI)
qed

text \<open>
  Claim C1 as stated fails: on a 12-byte buffer whose header declares one question,
  with all 12 bytes valid, \<^verbatim>\<open>Read\<close> panics on the read of \<^verbatim>\<open>buffer[12]\<close>.
\<close>

theorem Read_panics_counterexample:
  "(12::int) \<le> int (length (data (full [0, 7, 1, 0, 0, 1, 0, 0, 0, 0, 0, 0])))
   \<and> snd (Read (full [0, 7, 1, 0, 0, 1, 0, 0, 0, 0, 0, 0]) 12) = Panic"
  by (simp add: eval_defs eval_parser)

section \<open>The sections of a message\<close>

lemma counter_succ: "i < (count :: 16 word) \<Longrightarrow> unat (i + 1) = unat i + 1 \<and> i + 1 \<le> count"
proof -
  assume a: "i < count"
  then have lt: "unat i < unat count" by (simp add: word_less_nat_alt)
  have "unat count < 65536" using unsigned_less [of count, where ?'a = nat] by simp
  with lt have u: "unat (i + 1) = unat i + 1" by (simp add: unat_word_ariths)
  with lt have "i + 1 \<le> count" by (simp add: word_le_nat_alt)
  with u show ?thesis by simp
qed

lemma questions_loop_length:
  "questions_loop buffer count i index acc = Ret (qs, index') \<Longrightarrow> i \<le> count \<Longrightarrow>
   length qs = length acc + (unat count - unat i)"
proof (induction buffer count i index acc rule: questions_loop.induct)
  case (1 buffer count i index acc)
  show ?case
  proof (cases "i < count")
    case True
    with "1.prems"(1) obtain q newIndex where
      q: "parseQuestion buffer index = Ret (q, newIndex)"
      and r: "questions_loop buffer count (i + 1) newIndex (acc @ [q]) = Ret (qs, index')"
      by (subst (asm) questions_loop.simps) (auto split: res.splits prod.splits)
    from counter_succ [OF True] have s: "unat (i + 1) = unat i + 1" "i + 1 \<le> count" by simp_all
    from True have "unat i < unat count" by (simp add: word_less_nat_alt)
    with "1.IH" [OF True q refl r s(2)] s(1) show ?thesis by simp
  next
    case False
    with "1.prems" have "i = count" by simp
    moreover from False "1.prems"(1) have "qs = acc"
      by (subst (asm) questions_loop.simps) simp
    ultimately show ?thesis by simp
  qed
qed

lemma resources_loop_length:
  "resources_loop buffer count i index acc = Ret (rs, index') \<Longrightarrow> i \<le> count \<Longrightarrow>
   length rs = length acc + (unat count - unat i)"
proof (induction buffer count i index acc rule: resources_loop.induct)
  case (1 buffer count i index acc)
  show ?case
  proof (cases "i < count")
    case True
    with "1.prems"(1) obtain r newIndex where
      q: "parseResource buffer index = Ret (r, newIndex)"
      and r: "resources_loop buffer count (i + 1) newIndex (acc @ [r]) = Ret (rs, index')"
      by (subst (asm) resources_loop.simps) (auto split: res.splits prod.splits)
    from counter_succ [OF True] have s: "unat (i + 1) = unat i + 1" "i + 1 \<le> count" by simp_all
    from True have "unat i < unat count" by (simp add: word_less_nat_alt)
    with "1.IH" [OF True q refl r s(2)] s(1) show ?thesis by simp
  next
    case False
    with "1.prems" have "i = count" by simp
    moreover from False "1.prems"(1) have "rs = acc"
      by (subst (asm) resources_loop.simps) simp
    ultimately show ?thesis by simp
  qed
qed

lemma Read_sections:
  assumes "snd (Read buffer n) = Ret (p, None)"
  shows "length (Questions p) = unat (QdCount (Header p))
     \<and> length (Answers p) = unat (AnCount (Header p))
     \<and> length (Authorities p) = unat (NsCount (Header p))
     \<and> length (Additionals p) = unat (ArCount (Header p))"
proof -
  from assms obtain h qs i1 ans i2 nss i3 ars i4 where
    l: "questions_loop buffer (QdCount h) 0 12 [] = Ret (qs, i1)"
      "resources_loop buffer (AnCount h) 0 i1 [] = Ret (ans, i2)"
      "resources_loop buffer (NsCount h) 0 i2 [] = Ret (nss, i3)"
      "resources_loop buffer (ArCount h) 0 i3 [] = Ret (ars, i4)"
    and p: "p = \<lparr>Header = h, Questions = qs, Answers = ans, Authorities = nss,
                 Additionals = ars\<rparr>"
    by (auto simp: Read_def split: if_splits res.splits prod.splits)
  from questions_loop_length [OF l(1)] resources_loop_length [OF l(2)]
    resources_loop_length [OF l(3)] resources_loop_length [OF l(4)] p
  show ?thesis by simp
qed

text \<open>
  Claim C5 (amended). \<^verbatim>\<open>Read\<close> checks no record against the valid length \<open>n\<close> and has
  no section-overrun error: for every \<open>n\<close> between 0 and \<^verbatim>\<open>len(buffer)\<close> its outcome is
  the one for \<open>n = len(buffer)\<close>. Decoding is all or nothing: when \<^verbatim>\<open>Read\<close> returns a
  payload and no error, the questions, answers, authorities and additionals are exactly
  as many as QdCount, AnCount, NsCount and ArCount of the returned header declare; when
  it returns an error the payload is the zero value; a record that cannot be read is a
  panic, which returns nothing.
\<close>

theorem Read_all_or_nothing:
  "(\<forall>p. snd (Read buffer n) = Ret (p, None) \<longrightarrow>
       length (Questions p) = unat (QdCount (Header p))
       \<and> length (Answers p) = unat (AnCount (Header p))
       \<and> length (Authorities p) = unat (NsCount (Header p))
       \<and> length (Additionals p) = unat (ArCount (Header p)))
   \<and> (\<forall>p e. snd (Read buffer n) = Ret (p, Some e) \<longrightarrow> p = zero_Payload)
   \<and> (0 \<le> n \<and> n \<le> int (length (data buffer)) \<longrightarrow>
        snd (Read buffer n) = snd (Read buffer (int (length (data buffer)))))"
proof (intro conjI allI impI)
  fix p
  assume a: "snd (Read buffer n) = Ret (p, None)"
  from Read_sections [OF a]
  show "length (Questions p) = unat (QdCount (Header p))"
    "length (Answers p) = unat (AnCount (Header p))"
    "length (Authorities p) = unat (NsCount (Header p))"
    "length (Additionals p) = unat (ArCount (Header p))"
    by simp_all
next
  fix p e
  assume "snd (Read buffer n) = Ret (p, Some e)"
  then show "p = zero_Payload" by (simp add: Read_error_is_short_header)
next
  assume a: "0 \<le> n \<and> n \<le> int (length (data buffer))"
  then have "snd (Read buffer n) = snd (Read buffer 0)"
    using Read_split [of n buffer] by simp
  moreover have "snd (Read buffer (int (length (data buffer)))) = snd (Read buffer 0)"
    using Read_split [of "int (length (data buffer))" buffer] by simp
  ultimately show "snd (Read buffer n) = snd (Read buffer (int (length (data buffer))))"
    by simp
qed

theorem Read_all_or_nothing_witness:
  "snd (Read (full [0, 7, 1, 0, 0, 1, 0, 0, 0, 0, 0, 0, 0, 0, 1, 0, 1]) 17)
     = Ret (\<lparr>Header = \<lparr>ID = 7, Flags = 256, QdCount = 1, AnCount = 0, NsCount = 0,
                         ArCount = 0\<rparr>,
             Questions = [\<lparr>QName = [], QType = 1, QClass = 1\<rparr>], Answers = [],
             Authorities = [], Additionals = []\<rparr>, None)
   \<and> length [\<lparr>QName = [], QType = 1, QClass = 1\<rparr>] = unat (1 :: 16 word)
   \<and> (0::int) \<le> 12
   \<and> 12 \<le> int (length (data (full [0, 7, 1, 0, 0, 1, 0, 0, 0, 0, 0, 0, 0, 0, 1, 0, 1])))
   \<and> snd (Read (full [0, 7, 1, 0, 0, 1, 0, 0, 0, 0, 0, 0, 0, 0, 1, 0, 1]) 12)
     = snd (Read (full [0, 7, 1, 0, 0, 1, 0, 0, 0, 0, 0, 0, 0, 0, 1, 0, 1]) 17)
   \<and> snd (Read (full [1, 2, 3]) 3) = Ret (zero_Payload, Some ShortHeader)"
proof -
  let ?b = "full [0, 7, 1, 0, 0, 1, 0, 0, 0, 0, 0, 0, 0, 0, 1, 0, 1]"
  let ?p = "\<lparr>Header = \<lparr>ID = 7, Flags = 256, QdCount = 1, AnCount = 0, NsCount = 0,
                         ArCount = 0\<rparr>,
             Questions = [\<lparr>QName = [], QType = 1, QClass = 1\<rparr>], Answers = [],
             Authorities = [], Additionals = []\<rparr>"
  have v: "snd (Read ?b 17) = Ret (?p, None)"
    by (simp add: eval_defs eval_parser)
  have s: "\<exists>p. snd (Read (full [1, 2, 3]) 3) = Ret (p, Some ShortHeader)"
    by (simp add: eval_defs eval_parser)
  then obtain p0 where p0: "snd (Read (full [1, 2, 3]) 3) = Ret (p0, Some ShortHeader)" ..
  have h: "(0::int) \<le> 12" "12 \<le> int (length (data ?b))" "int (length (data ?b)) = 17"
    by (simp_all add: full_def)
  from Read_all_or_nothing [of ?b 17, THEN conjunct1, rule_format, OF v]
  have a: "length [\<lparr>QName = [], QType = 1, QClass = 1\<rparr>] = unat (1 :: 16 word)" by simp
  from Read_all_or_nothing [of "full [1, 2, 3]" 3, THEN conjunct2, THEN conjunct1, rule_format,
      OF p0] p0
  have b: "snd (Read (full [1, 2, 3]) 3) = Ret (zero_Payload, Some ShortHeader)" by simp
  from Read_all_or_nothing [of ?b 12, THEN conjunct2, THEN conjunct2] h
  have c: "snd (Read ?b 12) = snd (Read ?b 17)" by simp
  from v a h(1,2) c b show ?thesis by (intro conjI)
qed

text \<open>
  Claim C5 as stated fails: with 12 valid bytes in a buffer of 17, the question that
  the header declares lies wholly at and after position \<open>n = 12\<close>; \<^verbatim>\<open>Read\<close> decodes
  it and returns the payload with no error.
\<close>

theorem Read_past_n_counterexample:
  "(12::int) \<le> int (length (data (full [0, 7, 1, 0, 0, 1, 0, 0, 0, 0, 0, 0, 0, 0, 1, 0, 1])))
   \<and> snd (Read (full [0, 7, 1, 0, 0, 1, 0, 0, 0, 0, 0, 0, 0, 0, 1, 0, 1]) 12)
     = Ret (\<lparr>Header = \<lparr>ID = 7, Flags = 256, QdCount = 1, AnCount = 0, NsCount = 0,
                         ArCount = 0\<rparr>,
             Questions = [\<lparr>QName = [], QType = 1, QClass = 1\<rparr>], Answers = [],
             Authorities = [], Additionals = []\<rparr>, None)"
  by (simp add: eval_defs eval_parser)

end
